theory Spec2Isabelle
  imports Main "HOL-Library.Multiset"
begin

unbundle bit_operations_syntax

section \<open>Shared vocabulary of the benchmark drivers\<close>

text \<open>
  The five operation kinds, in the order of the \<^verbatim>\<open>iota\<close> block of \<^verbatim>\<open>benchMixed\<close>
  (\<^verbatim>\<open>delet, get, head, post, put\<close>) and of its \<^verbatim>\<open>methods\<close> table.
\<close>

datatype kind = DELETE | GET | HEAD | POST | PUT

text \<open>
  \<^verbatim>\<open>fmt.Sprintf("%d", n)\<close>: the decimal rendering of a Go \<^verbatim>\<open>int\<close>.
\<close>

fun digits :: "nat \<Rightarrow> string" where
  "digits n =
     (if n < 10 then [''0123456789'' ! n]
      else digits (n div 10) @ [''0123456789'' ! (n mod 10)])"

declare digits.simps [simp del]

definition itoa :: "int \<Rightarrow> string" where
  "itoa n = (if n < 0 then CHR ''-'' # digits (nat (- n)) else digits (nat n))"

text \<open>
  Go's \<^verbatim>\<open>/\<close> and \<^verbatim>\<open>%\<close> on \<^verbatim>\<open>int\<close> truncate towards zero; HOL's \<open>div\<close> and \<open>mod\<close>
  round down. Both are written out; the divisor is never zero where they are used
  (\<^verbatim>\<open>containers\<close> is clamped to at least one).
\<close>

definition go_quot :: "int \<Rightarrow> int \<Rightarrow> int" where
  "go_quot a b = sgn a * sgn b * (\<bar>a\<bar> div \<bar>b\<bar>)"

definition go_rem :: "int \<Rightarrow> int \<Rightarrow> int" where
  "go_rem a b = a - b * go_quot a b"

text \<open>
  The name derivation every worker performs on its index \<^verbatim>\<open>i\<close>:
  \<^verbatim>\<open>
  deleteContainer := container
  if containers > 1 {
      deleteContainer = fmt.Sprintf("%s%d", deleteContainer, i%containers)
  }
  deleteObject := fmt.Sprintf("%s%d", object, i)
  \<close>
\<close>

definition task_names :: "string \<Rightarrow> string \<Rightarrow> int \<Rightarrow> int \<Rightarrow> string \<times> string" where
  "task_names container object containers i =
     ((if containers > 1 then container @ itoa (go_rem i containers) else container),
      object @ itoa i)"

text \<open>
  The line a worker writes to standard error for a non-2xx response,
  \<^verbatim>\<open>"DELETE %s/%s - %d %s - %s\n"\<close>: method, container, object and status code (the
  status text and the body bytes come from the HTTP library and the server).
\<close>

datatype diag = Diag kind string string nat

text \<open>
  A scheduler-driven execution: the events of a list are applied in order, and the run is
  undefined as soon as an event is not enabled in the state it meets.
\<close>

fun run_events :: "('e \<Rightarrow> 's \<Rightarrow> 's option) \<Rightarrow> 'e list \<Rightarrow> 's \<Rightarrow> 's option" where
  "run_events step [] s = Some s"
| "run_events step (e # es) s =
     (case step e s of None \<Rightarrow> None | Some s' \<Rightarrow> run_events step es s')"

section \<open>The fixed-count drivers: bench-delete, bench-get, bench-head, bench-post, bench-put\<close>

text \<open>
  The command-line flags a fixed-count driver reads. \<open>f_csvot\<close> says that a \<^verbatim>\<open>-csvot\<close>
  path was given. bench-get and bench-head read \<^verbatim>\<open>-iterations\<close>, bench-put reads
  \<^verbatim>\<open>-size\<close> and \<^verbatim>\<open>-maxsize\<close>; the other drivers ignore those fields.
\<close>

record flags =
  f_container :: string
  f_object :: string
  f_containers :: int
  f_count :: int
  f_iterations :: int
  f_size :: int
  f_maxsize :: int
  f_concurrency :: int
  f_continueOnError :: bool
  f_csvot :: bool

text \<open>The local variables of a driver once the flags have been clamped.\<close>

record bench =
  b_kind :: kind
  b_container :: string
  b_object :: string
  b_containers :: int
  b_count :: int
  b_iterations :: int
  b_size :: int
  b_maxsize :: int
  b_concurrency :: int
  b_continueOnError :: bool
  b_csvot :: bool

text \<open>
  The prologue of each driver:
  \<^verbatim>\<open>
  if object == "" { object = "bench-" }
  if containers < 1 { containers = 1 }
  if count < 1 { count = 1000 }
  if size < 0 { size = 4096 }
  if maxsize < size { maxsize = size }
  if iterations < 1 { iterations = 1 }
  if concurrency < 1 { concurrency = 1 }
  \<close>
  bench-delete, bench-post and bench-put have no iteration loop, which is one iteration.
\<close>

definition has_iterations :: "kind \<Rightarrow> bool" where
  "has_iterations k = (k = GET \<or> k = HEAD)"

definition bench_locals :: "kind \<Rightarrow> flags \<Rightarrow> bench" where
  "bench_locals k fl =
     (let size0 = (if f_size fl < 0 then 4096 else f_size fl) in
      \<lparr> b_kind = k,
        b_container = f_container fl,
        b_object = (if f_object fl = [] then ''bench-'' else f_object fl),
        b_containers = (if f_containers fl < 1 then 1 else f_containers fl),
        b_count = (if f_count fl < 1 then 1000 else f_count fl),
        b_iterations =
          (if has_iterations k then (if f_iterations fl < 1 then 1 else f_iterations fl)
           else 1),
        b_size = size0,
        b_maxsize = (if f_maxsize fl < size0 then size0 else f_maxsize fl),
        b_concurrency = (if f_concurrency fl < 1 then 1 else f_concurrency fl),
        b_continueOnError = f_continueOnError fl,
        b_csvot = f_csvot fl \<rparr>)"

text \<open>
  \<^verbatim>\<open>rnd.Intn(n)\<close> returns a number in \<open>[0, n)\<close> and panics when \<open>n \<le> 0\<close>. The raw draw
  \<open>r\<close> of the random source is an input of the model.
\<close>

definition Intn :: "nat \<Rightarrow> int \<Rightarrow> int option" where
  "Intn r n = (if n \<le> 0 then None else Some (int r mod n))"

text \<open>
  The body length of one PUT of bench-put; the body is an \<^verbatim>\<open>io.LimitedReader\<close> of
  \<^verbatim>\<open>N: sz\<close> over the endless random source, so it has exactly \<^verbatim>\<open>sz\<close> bytes:
  \<^verbatim>\<open>
  sz := size
  if maxsize > size {
      sz += int64(rnd.Intn(int(maxsize - size)))
  }
  \<close>
\<close>

definition put_body_size :: "int \<Rightarrow> int \<Rightarrow> nat \<Rightarrow> int option" where
  "put_body_size size0 maxsize r =
     (if maxsize > size0
      then (case Intn r (maxsize - size0) of None \<Rightarrow> None | Some d \<Rightarrow> Some (size0 + d))
      else Some size0)"

text \<open>
  A worker goroutine is about to receive from \<^verbatim>\<open>benchChan\<close>, holds the index of the
  task it received (already decremented), or has left its loop and called \<^verbatim>\<open>wg.Done\<close>.
\<close>

datatype wstate = WRecv | WCall int | WExit

text \<open>
  The main goroutine is in its dispatch loop (at the \<^verbatim>\<open>select\<close>), has left the loop and
  is about to close the channel, waits for the workers, or has printed its report.
\<close>

datatype phase = Running | Closing | Draining | Reported

text \<open>One request handed to the StorageClient: index, container, object, status, body length.\<close>

record request =
  rq_index :: int
  rq_container :: string
  rq_object :: string
  rq_status :: nat
  rq_body :: "int option"

text \<open>
  A run starts after the prologue: the drivers refuse an empty container name, and
  bench-put first creates its containers. The per-operation timing file (\<^verbatim>\<open>-csv\<close>), the
  verbose output and the rates printed as floating-point numbers are left out of the state.
  Go's \<^verbatim>\<open>int\<close> and \<^verbatim>\<open>int64\<close> are modelled by \<open>int\<close>: the counters and indices of a run
  count operations performed and stay far below \<open>2^63\<close>.

  The state of one run. \<open>sent\<close> is the history of the values sent on \<^verbatim>\<open>benchChan\<close> and
  \<open>progress\<close> the history of the \<^verbatim>\<open>soFar\<close> values printed; \<open>exited\<close> is the exit status
  once the process has stopped through \<^verbatim>\<open>os.Exit\<close> or a panic.
\<close>

record fstate =
  phase :: phase
  p_iteration :: int
  p_i :: int
  lastSoFar :: int
  benchChan :: "int list"
  closed :: bool
  workers :: "wstate list"
  sent :: "int list"
  requests :: "request list"
  stderr :: "diag list"
  progress :: "int list"
  csvotw :: "string list list"
  exited :: "int option"

text \<open>
  What the scheduler and the environment decide: the ticker fires (at a clock reading), the
  send of the \<^verbatim>\<open>select\<close> goes through, the channel is closed, a worker receives, the
  StorageClient answers a worker (status code, and the raw draw of the random source that
  bench-put consumes), and \<^verbatim>\<open>wg.Wait\<close> returns (at a clock reading, with the status codes
  of the container deletions that end bench-delete).
\<close>

datatype fevent =
  Tick int | Send | Close | Recv nat | Complete nat nat nat | Finish int "nat list"

text \<open>
  The loop header after a send: \<^verbatim>\<open>i++\<close>, then the tests \<^verbatim>\<open>i <= count\<close> and, for the outer
  loop of bench-get and bench-head, \<^verbatim>\<open>iteration++\<close> and \<^verbatim>\<open>iteration < iterations\<close>.
\<close>

definition enter_iteration :: "bench \<Rightarrow> int \<Rightarrow> fstate \<Rightarrow> fstate" where
  "enter_iteration b iteration s =
     (if iteration < b_iterations b \<and> 1 \<le> b_count b
      then s\<lparr>phase := Running, p_iteration := iteration, p_i := 1\<rparr>
      else s\<lparr>phase := Closing\<rparr>)"

definition advance :: "bench \<Rightarrow> fstate \<Rightarrow> fstate" where
  "advance b s =
     (if p_i s + 1 \<le> b_count b then s\<lparr>p_i := p_i s + 1\<rparr>
      else enter_iteration b (p_iteration s + 1) s)"

text \<open>
  The ticker case of the \<^verbatim>\<open>select\<close>:
  \<^verbatim>\<open>
  soFar := i - concurrency                      // bench-delete, bench-post, bench-put
  soFar := iteration*count + i - concurrency    // bench-get, bench-head
  ...
  if csvotw != nil {
      csvotw.Write([]string{now, soFar-lastSoFar})
      lastSoFar = soFar
  }
  \<close>
\<close>

definition soFar :: "bench \<Rightarrow> fstate \<Rightarrow> int" where
  "soFar b s =
     (if has_iterations (b_kind b)
      then p_iteration s * b_count b + p_i s - b_concurrency b
      else p_i s - b_concurrency b)"

definition tick :: "bench \<Rightarrow> int \<Rightarrow> fstate \<Rightarrow> fstate" where
  "tick b now s =
     (let s1 = s\<lparr>progress := progress s @ [soFar b s]\<rparr> in
      if b_csvot b
      then s1\<lparr>csvotw := csvotw s @ [[itoa now, itoa (soFar b s - lastSoFar s)]],
              lastSoFar := soFar b s\<rparr>
      else s1)"

definition send :: "bench \<Rightarrow> fstate \<Rightarrow> fstate" where
  "send b s =
     advance b (s\<lparr>benchChan := benchChan s @ [p_i s], sent := sent s @ [p_i s]\<rparr>)"

text \<open>
  The head of the worker loop. A receive takes the oldest buffered value; on a closed and
  drained channel it yields the zero value:
  \<^verbatim>\<open>
  i := <-benchChan
  if i == 0 { break }
  i--
  \<close>
\<close>

definition after_recv :: "int \<Rightarrow> wstate" where
  "after_recv v = (if v = 0 then WExit else WCall (v - 1))"

definition recv :: "nat \<Rightarrow> fstate \<Rightarrow> fstate option" where
  "recv w s =
     (case benchChan s of
        v # rest \<Rightarrow> Some (s\<lparr>benchChan := rest, workers := (workers s)[w := after_recv v]\<rparr>)
      | [] \<Rightarrow> if closed s then Some (s\<lparr>workers := (workers s)[w := after_recv 0]\<rparr>) else None)"

text \<open>
  The rest of the worker loop: the request, and the handling of its status:
  \<^verbatim>\<open>
  if resp.StatusCode/100 != 2 {
      if *cli.globalFlagContinueOnError {
          fmt.Fprintf(os.Stderr, ...)
          continue
      } else {
          cli.fatalf(cli, ...)       // cliFatalf: Fprintf(os.Stderr, ...); os.Exit(1)
      }
  }
  \<close>
  A panic of \<^verbatim>\<open>rnd.Intn\<close> would end the process with status 2.
\<close>

definition body_size :: "bench \<Rightarrow> nat \<Rightarrow> int option option" where
  "body_size b r =
     (if b_kind b = PUT
      then (case put_body_size (b_size b) (b_maxsize b) r of
              None \<Rightarrow> None | Some sz \<Rightarrow> Some (Some sz))
      else Some None)"

definition request_of :: "bench \<Rightarrow> int \<Rightarrow> nat \<Rightarrow> int option \<Rightarrow> request" where
  "request_of b i st body =
     (let (c, ob) = task_names (b_container b) (b_object b) (b_containers b) i
      in \<lparr>rq_index = i, rq_container = c, rq_object = ob, rq_status = st, rq_body = body\<rparr>)"

definition diag_of :: "bench \<Rightarrow> int \<Rightarrow> nat \<Rightarrow> diag" where
  "diag_of b i st =
     (let (c, ob) = task_names (b_container b) (b_object b) (b_containers b) i
      in Diag (b_kind b) c ob st)"

definition complete :: "bench \<Rightarrow> nat \<Rightarrow> int \<Rightarrow> nat \<Rightarrow> nat \<Rightarrow> fstate \<Rightarrow> fstate" where
  "complete b w i st r s =
     (case body_size b r of
        None \<Rightarrow> s\<lparr>exited := Some 2\<rparr>
      | Some body \<Rightarrow>
          (let s1 = s\<lparr>requests := requests s @ [request_of b i st body]\<rparr>
           in if st div 100 \<noteq> 2
              then (if b_continueOnError b
                    then s1\<lparr>stderr := stderr s @ [diag_of b i st],
                            workers := (workers s)[w := WRecv]\<rparr>
                    else s1\<lparr>stderr := stderr s @ [diag_of b i st], exited := Some 1\<rparr>)
              else s1\<lparr>workers := (workers s)[w := WRecv]\<rparr>))"

text \<open>
  After \<^verbatim>\<open>wg.Wait\<close>. bench-delete then tries to delete its containers and only reports a
  failure; every driver ends by writing the last row of the throughput file:
  \<^verbatim>\<open>
  csvotw.Write([]string{stop, count-lastSoFar})             // iterations*count for get, head
  \<close>
\<close>

definition cleanup_containers :: "bench \<Rightarrow> string list" where
  "cleanup_containers b =
     (if b_kind b \<noteq> DELETE then []
      else if b_containers b = 1 then [b_container b]
      else map (\<lambda>x. b_container b @ itoa x) [0..b_containers b - 1])"

definition cleanup_diags :: "string list \<Rightarrow> nat list \<Rightarrow> diag list" where
  "cleanup_diags names sts =
     map (\<lambda>(c, st). Diag DELETE c [] st) (filter (\<lambda>(c, st). st div 100 \<noteq> 2) (zip names sts))"

definition total_count :: "bench \<Rightarrow> int" where
  "total_count b = (if has_iterations (b_kind b) then b_iterations b * b_count b else b_count b)"

definition finish :: "bench \<Rightarrow> int \<Rightarrow> nat list \<Rightarrow> fstate \<Rightarrow> fstate" where
  "finish b stop sts s =
     s\<lparr>phase := Reported,
       stderr := stderr s @ cleanup_diags (cleanup_containers b) sts,
       csvotw := (if b_csvot b
                  then csvotw s @ [[itoa stop, itoa (total_count b - lastSoFar s)]]
                  else csvotw s)\<rparr>"

definition fstep :: "bench \<Rightarrow> fevent \<Rightarrow> fstate \<Rightarrow> fstate option" where
  "fstep b e s =
     (if exited s \<noteq> None then None
      else case e of
        Tick now \<Rightarrow> if phase s = Running then Some (tick b now s) else None
      | Send \<Rightarrow>
          if phase s = Running \<and> int (length (benchChan s)) < b_concurrency b
          then Some (send b s) else None
      | Close \<Rightarrow> if phase s = Closing then Some (s\<lparr>closed := True, phase := Draining\<rparr>) else None
      | Recv w \<Rightarrow> if w < length (workers s) \<and> workers s ! w = WRecv then recv w s else None
      | Complete w st r \<Rightarrow>
          if w < length (workers s)
          then (case workers s ! w of WCall i \<Rightarrow> Some (complete b w i st r s) | _ \<Rightarrow> None)
          else None
      | Finish stop sts \<Rightarrow>
          if phase s = Draining \<and> (\<forall>w \<in> set (workers s). w = WExit)
             \<and> length sts = length (cleanup_containers b)
          then Some (finish b stop sts s) else None)"

text \<open>
  The state in which the dispatch loop starts: the throughput file, when configured, holds
  its header and the baseline row, and \<^verbatim>\<open>concurrency\<close> workers wait on the empty channel.
  \<^verbatim>\<open>
  csvotw.Write([]string{"time_unix_nano", "count_since_last_time"})
  csvotw.Write([]string{fmt.Sprintf("%d", time.Now().UnixNano()), "0"})
  \<close>
\<close>

definition csvot_header :: "string list" where
  "csvot_header = [''time_unix_nano'', ''count_since_last_time'']"

definition finit :: "bench \<Rightarrow> int \<Rightarrow> fstate" where
  "finit b now =
     enter_iteration b 0
       \<lparr> phase = Running, p_iteration = 0, p_i = 1, lastSoFar = 0, benchChan = [],
         closed = False, workers = replicate (nat (b_concurrency b)) WRecv, sent = [],
         requests = [], stderr = [], progress = [],
         csvotw = (if b_csvot b then [csvot_header, [itoa now, ''0'']] else []),
         exited = None \<rparr>"

definition frun :: "bench \<Rightarrow> int \<Rightarrow> fevent list \<Rightarrow> fstate option" where
  "frun b now es = run_events (fstep b) es (finit b now)"

subsection \<open>Invariants of the fixed-count drivers\<close>

text \<open>The body length that bench-put may give a request.\<close>

definition body_ok :: "bench \<Rightarrow> request \<Rightarrow> bool" where
  "body_ok b rq = (\<exists>n. rq_body rq = Some n \<and>
      (if b_maxsize b \<le> b_size b then n = b_size b else b_size b \<le> n \<and> n < b_maxsize b))"

text \<open>What the prologue guarantees of the clamped locals.\<close>

definition wf_bench :: "bench \<Rightarrow> bool" where
  "wf_bench b = (1 \<le> b_count b \<and> 1 \<le> b_iterations b \<and> 1 \<le> b_concurrency b
      \<and> 1 \<le> b_containers b \<and> (\<not> has_iterations (b_kind b) \<longrightarrow> b_iterations b = 1))"

text \<open>
  The sent values the workers hold (a worker holds the index \<open>i\<close> of the sent value
  \<open>i + 1\<close>), all the values a run sends, and the values sent when the dispatch loop is
  at iteration \<open>it\<close> and index \<open>i\<close>.
\<close>

definition inflight :: "wstate \<Rightarrow> int multiset" where
  "inflight w = (case w of WCall i \<Rightarrow> {#i + 1#} | _ \<Rightarrow> {#})"

definition pool_inflight :: "wstate list \<Rightarrow> int multiset" where
  "pool_inflight ws = sum_list (map inflight ws)"

definition all_tasks :: "bench \<Rightarrow> int list" where
  "all_tasks b = concat (replicate (nat (b_iterations b)) [1..b_count b])"

definition sent_upto :: "bench \<Rightarrow> int \<Rightarrow> int \<Rightarrow> int list" where
  "sent_upto b it i = concat (replicate (nat it) [1..b_count b]) @ [1..i - 1]"

text \<open>
  The history of sends agrees with the position of the dispatch loop, and the channel is
  closed exactly from the draining phase on.
\<close>

definition position_ok :: "bench \<Rightarrow> fstate \<Rightarrow> bool" where
  "position_ok b s =
     ((phase s = Running \<longrightarrow>
         0 \<le> p_iteration s \<and> p_iteration s < b_iterations b \<and> 1 \<le> p_i s
         \<and> p_i s \<le> b_count b \<and> sent s = sent_upto b (p_iteration s) (p_i s))
      \<and> (phase s \<noteq> Running \<longrightarrow> sent s = all_tasks b)
      \<and> (closed s \<longleftrightarrow> phase s = Draining \<or> phase s = Reported))"

text \<open>
  Every value sent is in the channel, held by a worker, or has been made into exactly one
  request (\<open>issued\<close> lists the requests by the value sent for them); once the process has
  exited the requests are still among the values sent.
\<close>

definition issued :: "fstate \<Rightarrow> int multiset" where
  "issued s = mset (map (\<lambda>rq. rq_index rq + 1) (requests s))"

definition conserved :: "fstate \<Rightarrow> bool" where
  "conserved s =
     (if exited s = None
      then mset (sent s) = mset (benchChan s) + pool_inflight (workers s) + issued s
      else issued s \<subseteq># mset (sent s))"

text \<open>
  A worker has left its loop only after the channel was closed and drained, and at the
  report all workers have.
\<close>

definition pool_ok :: "fstate \<Rightarrow> bool" where
  "pool_ok s =
     ((WExit \<in> set (workers s) \<longrightarrow> closed s \<and> benchChan s = [])
      \<and> (phase s = Reported \<longrightarrow> (\<forall>w \<in> set (workers s). w = WExit)))"

definition finv :: "bench \<Rightarrow> fstate \<Rightarrow> bool" where
  "finv b s = (position_ok b s \<and> conserved s \<and> length (workers s) = nat (b_concurrency b)
      \<and> pool_ok s)"

text \<open>The names of a request are those derived from its index.\<close>

definition req_ok :: "bench \<Rightarrow> request \<Rightarrow> bool" where
  "req_ok b rq =
     (rq_object rq = b_object b @ itoa (rq_index rq)
      \<and> rq_container rq =
          (if b_containers b > 1
           then b_container b @ itoa (go_rem (rq_index rq) (b_containers b))
           else b_container b))"

text \<open>
  The events of a run in which every StorageClient response is 2xx, and the events other
  than the firing of the ticker.
\<close>

definition ok_event :: "fevent \<Rightarrow> bool" where
  "ok_event e = (case e of Complete w st r \<Rightarrow> st div 100 = 2 | _ \<Rightarrow> True)"

definition is_tick :: "fevent \<Rightarrow> bool" where
  "is_tick e = (case e of Tick now \<Rightarrow> True | _ \<Rightarrow> False)"

text \<open>
  A measure of the work a run still has to do: the tasks still to send, the values in the
  channel, the state of each worker and the phase of the main goroutine.
\<close>

definition todo :: "bench \<Rightarrow> fstate \<Rightarrow> nat" where
  "todo b s =
     (if phase s = Running
      then nat ((b_iterations b - p_iteration s) * b_count b - (p_i s - 1)) else 0)"

definition wmu :: "wstate \<Rightarrow> nat" where
  "wmu w = (case w of WRecv \<Rightarrow> 1 | WCall i \<Rightarrow> 2 | WExit \<Rightarrow> 0)"

definition phase_rank :: "phase \<Rightarrow> nat" where
  "phase_rank p = (case p of Running \<Rightarrow> 3 | Closing \<Rightarrow> 2 | Draining \<Rightarrow> 1 | Reported \<Rightarrow> 0)"

definition fmu :: "bench \<Rightarrow> fstate \<Rightarrow> nat" where
  "fmu b s = 3 * todo b s + 2 * length (benchChan s) + sum_list (map wmu (workers s))
      + phase_rank (phase s)"

subsection \<open>Sample runs of the fixed-count drivers\<close>

text \<open>
  Flag values and schedules of concrete runs: bench-put with sizes 100 to 200, bench-delete
  over three containers, bench-delete with more workers than objects, and bench-get with
  two iterations over two objects.
\<close>

definition fl_put :: flags where
  "fl_put = \<lparr> f_container = ''c'', f_object = [], f_containers = 1, f_count = 2,
      f_iterations = 0, f_size = 100, f_maxsize = 200, f_concurrency = 1,
      f_continueOnError = False, f_csvot = False \<rparr>"

definition fl_del :: flags where
  "fl_del = \<lparr> f_container = ''c'', f_object = ''o'', f_containers = 3, f_count = 2,
      f_iterations = 0, f_size = 0, f_maxsize = 0, f_concurrency = 1,
      f_continueOnError = False, f_csvot = True \<rparr>"

definition es_del :: "fevent list" where
  "es_del = [Send, Recv 0, Complete 0 204 0, Send, Close, Recv 0, Complete 0 204 0, Recv 0,
     Finish 9 [204, 204, 404]]"

definition fl_neg :: flags where
  "fl_neg = \<lparr> f_container = ''c'', f_object = ''o'', f_containers = 1, f_count = 1,
      f_iterations = 0, f_size = 0, f_maxsize = 0, f_concurrency = 2,
      f_continueOnError = False, f_csvot = False \<rparr>"

definition fl_get :: flags where
  "fl_get = \<lparr> f_container = ''c'', f_object = ''o'', f_containers = 1, f_count = 2,
      f_iterations = 2, f_size = 0, f_maxsize = 0, f_concurrency = 2,
      f_continueOnError = False, f_csvot = True \<rparr>"

definition es_get :: "fevent list" where
  "es_get = [Send, Send, Recv 0, Recv 1, Tick 60, Complete 1 200 0, Complete 0 200 0, Send, Send,
     Close, Recv 0, Recv 1, Complete 0 200 0, Complete 1 206 0, Recv 0, Recv 1, Finish 99 []]"

text \<open>
  bench-head with two iterations over two objects and one worker, up to the first send of
  the second iteration; and one more task from dispatch to completion.
\<close>

definition fl_head :: flags where
  "fl_head = \<lparr> f_container = ''c'', f_object = ''o'', f_containers = 1, f_count = 2,
      f_iterations = 2, f_size = 0, f_maxsize = 0, f_concurrency = 1,
      f_continueOnError = False, f_csvot = False \<rparr>"

definition es_head :: "fevent list" where
  "es_head = [Send, Recv 0, Complete 0 200 0, Send]"

definition es_retry :: "fevent list" where
  "es_retry = [Send, Recv 0, Complete 0 204 0]"

section \<open>The mixed driver: bench-mixed with one channel and one worker pool per kind\<close>

text \<open>
  The local variables of \<^verbatim>\<open>benchMixed\<close> once the flags have been clamped (the same
  prologue as the fixed-count drivers; there is no count, no iteration and no maxsize).
\<close>

record mixed =
  m_container :: string
  m_object :: string
  m_containers :: int
  m_size :: int
  m_concurrency :: int
  m_continueOnError :: bool
  m_csvot :: bool

definition mixed_locals :: "flags \<Rightarrow> mixed" where
  "mixed_locals fl =
     \<lparr> m_container = f_container fl,
       m_object = (if f_object fl = [] then ''bench-'' else f_object fl),
       m_containers = (if f_containers fl < 1 then 1 else f_containers fl),
       m_size = (if f_size fl < 0 then 4096 else f_size fl),
       m_concurrency = (if f_concurrency fl < 1 then 1 else f_concurrency fl),
       m_continueOnError = f_continueOnError fl,
       m_csvot = f_csvot fl \<rparr>"

text \<open>
  A producer goroutine is at the head of its loop, between its two atomic loads (the
  GET, HEAD and POST producers read \<^verbatim>\<open>deletes\<close>, then \<^verbatim>\<open>puts\<close>), in the branch that
  polls, at the \<^verbatim>\<open>select\<close> that sends, or has returned. Its locals are the cursor
  \<^verbatim>\<open>i\<close> and the bounds \<^verbatim>\<open>lo\<close> and \<^verbatim>\<open>hi\<close> it last computed.
\<close>

datatype ppc = PTop | PMid | PPoll | PSel | PExit

record producer =
  pr_pc :: ppc
  pr_i :: int
  pr_lo :: int
  pr_hi :: int

text \<open>
  The state of a run: whether \<^verbatim>\<open>doneChan\<close> is closed, the five atomic counters, the
  five task channels, the five worker pools, the five producers, the reporting goroutine,
  the \<^verbatim>\<open>last...\<close> snapshots, the throughput file, the requests handed to the
  StorageClient, standard error, the exit status, and whether \<^verbatim>\<open>wg.Wait\<close> has returned.
  \<open>dispatched\<close> is the history of the values sent on each task channel.
\<close>

record mstate =
  doneChan :: bool
  counters :: "kind \<Rightarrow> int"
  chans :: "kind \<Rightarrow> int list"
  pool :: "kind \<Rightarrow> wstate list"
  producers :: "kind \<Rightarrow> producer"
  reporter_exited :: bool
  lasts :: "kind \<Rightarrow> int"
  m_csvotw :: "string list list"
  m_requests :: "(kind \<times> int) list"
  m_stderr :: "diag list"
  m_exited :: "int option"
  m_reported :: bool
  dispatched :: "kind \<Rightarrow> int list"

datatype mevent =
    TimerFire
  | WorkerRecv kind nat
  | WorkerQuit kind nat
  | WorkerComplete kind nat nat
  | ReporterTick int
  | ReporterQuit
  | ProducerLoad kind
  | ProducerLoadHi kind
  | ProducerPoll kind
  | ProducerSend kind
  | ProducerQuit kind
  | MainFinish int

definition kinds :: "kind list" where
  "kinds = [DELETE, GET, HEAD, POST, PUT]"

text \<open>
  The head of a producer loop. The DELETE producer:
  \<^verbatim>\<open>
  hi := int(atomic.LoadInt64(&puts)) - 10000 // TODO: CLI option
  if i > hi { ...poll... }
  \<close>
  The GET, HEAD and POST producers, first load:
  \<^verbatim>\<open>
  lo := int(atomic.LoadInt64(&deletes)) + concurrency*2
  if i < lo { i = lo }
  \<close>
  and second load:
  \<^verbatim>\<open>
  hi := int(atomic.LoadInt64(&puts)) - concurrency*2
  if i > hi { i = lo }
  if i > hi { ...poll... }
  \<close>
  The PUT producer has no gate: its loop is the \<^verbatim>\<open>select\<close> alone.
\<close>

definition producer_load :: "mixed \<Rightarrow> kind \<Rightarrow> mstate \<Rightarrow> producer \<Rightarrow> producer" where
  "producer_load c k s p =
     (if k = DELETE
      then (let hi = counters s PUT - 10000
            in p\<lparr>pr_hi := hi, pr_pc := (if pr_i p > hi then PPoll else PSel)\<rparr>)
      else (let lo = counters s DELETE + m_concurrency c * 2;
                i = (if pr_i p < lo then lo else pr_i p)
            in p\<lparr>pr_lo := lo, pr_i := i, pr_pc := PMid\<rparr>))"

definition producer_load_hi :: "mixed \<Rightarrow> mstate \<Rightarrow> producer \<Rightarrow> producer" where
  "producer_load_hi c s p =
     (let hi = counters s PUT - m_concurrency c * 2;
          i = (if pr_i p > hi then pr_lo p else pr_i p)
      in p\<lparr>pr_hi := hi, pr_i := i, pr_pc := (if i > hi then PPoll else PSel)\<rparr>)"

text \<open>
  The polling branch: a non-blocking look at \<^verbatim>\<open>doneChan\<close>, then a sleep and the next
  round of the loop:
  \<^verbatim>\<open>
  select {
  case <-doneChan:
      return
  default:
  }
  time.Sleep(time.Second)
  continue
  \<close>
\<close>

definition producer_poll :: "mstate \<Rightarrow> producer \<Rightarrow> producer" where
  "producer_poll s p = (if doneChan s then p\<lparr>pr_pc := PExit\<rparr> else p\<lparr>pr_pc := PTop\<rparr>)"

definition loop_head :: "kind \<Rightarrow> ppc" where
  "loop_head k = (if k = PUT then PSel else PTop)"

text \<open>
  The send case of \<^verbatim>\<open>select { case <-doneChan: return; case deleteChan <- i: i++ }\<close>.
\<close>

definition producer_send :: "kind \<Rightarrow> mstate \<Rightarrow> mstate" where
  "producer_send k s =
     (let p = producers s k
      in s\<lparr>chans := (chans s)(k := chans s k @ [pr_i p]),
           dispatched := (dispatched s)(k := dispatched s k @ [pr_i p]),
           producers := (producers s)(k := p\<lparr>pr_i := pr_i p + 1, pr_pc := loop_head k\<rparr>)\<rparr>)"

definition set_producer :: "kind \<Rightarrow> producer \<Rightarrow> mstate \<Rightarrow> mstate" where
  "set_producer k p s = s\<lparr>producers := (producers s)(k := p)\<rparr>"

definition set_worker :: "kind \<Rightarrow> nat \<Rightarrow> wstate \<Rightarrow> mstate \<Rightarrow> mstate" where
  "set_worker k w x s = s\<lparr>pool := (pool s)(k := (pool s k)[w := x])\<rparr>"

text \<open>
  A worker after the response: the counter of its kind is incremented whatever the
  status, then the status is handled as in the fixed-count drivers:
  \<^verbatim>\<open>
  resp := c.DeleteObject(opContainer, opObject, cli.globalFlagHeaders.Headers())
  atomic.AddInt64(&deletes, 1)
  ...
  if resp.StatusCode/100 != 2 { ... }
  \<close>
\<close>

definition mdiag :: "mixed \<Rightarrow> kind \<Rightarrow> int \<Rightarrow> nat \<Rightarrow> diag" where
  "mdiag c k i st =
     (let (cn, ob) = task_names (m_container c) (m_object c) (m_containers c) i
      in Diag k cn ob st)"

definition mcomplete :: "mixed \<Rightarrow> kind \<Rightarrow> nat \<Rightarrow> int \<Rightarrow> nat \<Rightarrow> mstate \<Rightarrow> mstate" where
  "mcomplete c k w i st s =
     (let s1 = s\<lparr>counters := (counters s)(k := counters s k + 1),
                 m_requests := m_requests s @ [(k, i)]\<rparr>
      in if st div 100 \<noteq> 2
         then (if m_continueOnError c
               then set_worker k w WRecv (s1\<lparr>m_stderr := m_stderr s @ [mdiag c k i st]\<rparr>)
               else s1\<lparr>m_stderr := m_stderr s @ [mdiag c k i st], m_exited := Some 1\<rparr>)
         else set_worker k w WRecv s1)"

text \<open>
  A row of the throughput file of bench-mixed: the clock and, per kind, the completions
  since the last row. The reporting goroutine writes one per tick and the main goroutine
  one after \<^verbatim>\<open>wg.Wait\<close>; the five atomic loads of a tick are taken as one step:
  \<^verbatim>\<open>
  csvotw.Write([]string{now, snapshotDeletes-lastDeletes, snapshotGets-lastGets,
      snapshotHeads-lastHeads, snapshotPosts-lastPosts, snapshotPuts-lastPuts})
  \<close>
\<close>

definition delta_row :: "int \<Rightarrow> mstate \<Rightarrow> string list" where
  "delta_row now s = itoa now # map (\<lambda>k. itoa (counters s k - lasts s k)) kinds"

definition report :: "mixed \<Rightarrow> int \<Rightarrow> mstate \<Rightarrow> mstate" where
  "report c now s =
     (if m_csvot c
      then s\<lparr>m_csvotw := m_csvotw s @ [delta_row now s], lasts := counters s\<rparr>
      else s)"

definition mfinish :: "mixed \<Rightarrow> int \<Rightarrow> mstate \<Rightarrow> mstate" where
  "mfinish c stop s =
     s\<lparr>m_reported := True,
       m_csvotw := (if m_csvot c then m_csvotw s @ [delta_row stop s] else m_csvotw s)\<rparr>"

definition all_exited :: "mstate \<Rightarrow> bool" where
  "all_exited s =
     (list_all (\<lambda>k. list_all (\<lambda>w. w = WExit) (pool s k) \<and> pr_pc (producers s k) = PExit) kinds
      \<and> reporter_exited s)"

text \<open>
  One step of a run. A \<^verbatim>\<open>select\<close> with several ready cases takes any of them, so with
  \<^verbatim>\<open>doneChan\<close> closed both the quit event and the send (or receive) event of a goroutine
  at its \<^verbatim>\<open>select\<close> are enabled.
\<close>

definition mstep :: "mixed \<Rightarrow> mevent \<Rightarrow> mstate \<Rightarrow> mstate option" where
  "mstep c e s =
     (if m_exited s \<noteq> None \<or> m_reported s then None
      else case e of
        TimerFire \<Rightarrow> if doneChan s then None else Some (s\<lparr>doneChan := True\<rparr>)
      | WorkerRecv k w \<Rightarrow>
          if w < length (pool s k) \<and> pool s k ! w = WRecv
          then (case chans s k of
                  [] \<Rightarrow> None
                | v # rest \<Rightarrow> Some (set_worker k w (WCall v) (s\<lparr>chans := (chans s)(k := rest)\<rparr>)))
          else None
      | WorkerQuit k w \<Rightarrow>
          if w < length (pool s k) \<and> pool s k ! w = WRecv \<and> doneChan s
          then Some (set_worker k w WExit s) else None
      | WorkerComplete k w st \<Rightarrow>
          if w < length (pool s k)
          then (case pool s k ! w of WCall i \<Rightarrow> Some (mcomplete c k w i st s) | _ \<Rightarrow> None)
          else None
      | ReporterTick now \<Rightarrow> if reporter_exited s then None else Some (report c now s)
      | ReporterQuit \<Rightarrow>
          if \<not> reporter_exited s \<and> doneChan s then Some (s\<lparr>reporter_exited := True\<rparr>) else None
      | ProducerLoad k \<Rightarrow>
          if pr_pc (producers s k) = PTop
          then Some (set_producer k (producer_load c k s (producers s k)) s) else None
      | ProducerLoadHi k \<Rightarrow>
          if pr_pc (producers s k) = PMid
          then Some (set_producer k (producer_load_hi c s (producers s k)) s) else None
      | ProducerPoll k \<Rightarrow>
          if pr_pc (producers s k) = PPoll
          then Some (set_producer k (producer_poll s (producers s k)) s) else None
      | ProducerSend k \<Rightarrow>
          if pr_pc (producers s k) = PSel \<and> int (length (chans s k)) < m_concurrency c
          then Some (producer_send k s) else None
      | ProducerQuit k \<Rightarrow>
          if pr_pc (producers s k) = PSel \<and> doneChan s
          then Some (set_producer k ((producers s k)\<lparr>pr_pc := PExit\<rparr>) s) else None
      | MainFinish stop \<Rightarrow> if all_exited s then Some (mfinish c stop s) else None)"

text \<open>
  The state in which the goroutines start. The throughput file, when configured, holds
  its header and the baseline row as the source writes them:
  \<^verbatim>\<open>
  csvotw.Write([]string{"time_unix_nano", "DELETE", "GET", "HEAD", "POST", "PUT"})
  csvotw.Write([]string{fmt.Sprintf("%d", time.Now().UnixNano()), "0", "0", "0", "0", "0", "0"})
  \<close>
\<close>

definition mixed_header :: "string list" where
  "mixed_header = [''time_unix_nano'', ''DELETE'', ''GET'', ''HEAD'', ''POST'', ''PUT'']"

definition mixed_baseline :: "int \<Rightarrow> string list" where
  "mixed_baseline now = [itoa now, ''0'', ''0'', ''0'', ''0'', ''0'', ''0'']"

definition minit :: "mixed \<Rightarrow> int \<Rightarrow> mstate" where
  "minit c now =
     \<lparr> doneChan = False, counters = (\<lambda>k. 0), chans = (\<lambda>k. []),
       pool = (\<lambda>k. replicate (nat (m_concurrency c)) WRecv),
       producers = (\<lambda>k. \<lparr>pr_pc = loop_head k, pr_i = 0, pr_lo = 0, pr_hi = 0\<rparr>),
       reporter_exited = False, lasts = (\<lambda>k. 0),
       m_csvotw = (if m_csvot c then [mixed_header, mixed_baseline now] else []),
       m_requests = [], m_stderr = [], m_exited = None, m_reported = False,
       dispatched = (\<lambda>k. []) \<rparr>"

definition mrun :: "mixed \<Rightarrow> int \<Rightarrow> mevent list \<Rightarrow> mstate option" where
  "mrun c now es = run_events (mstep c) es (minit c now)"

text \<open>
  The gate a DELETE producer at its \<^verbatim>\<open>select\<close> has passed, and the window a GET, HEAD or
  POST producer has computed: \<open>lo\<close> was read from \<^verbatim>\<open>deletes\<close> and \<open>hi\<close> from \<^verbatim>\<open>puts\<close>,
  counters that only grow.
\<close>

subsection \<open>Invariants, measures and derived notions of bench-mixed\<close>

definition delete_gate :: "mstate \<Rightarrow> bool" where
  "delete_gate s =
     (pr_pc (producers s DELETE) = PSel \<longrightarrow>
        pr_i (producers s DELETE) + 10000 \<le> counters s PUT)"

definition read_gate :: "mixed \<Rightarrow> mstate \<Rightarrow> kind \<Rightarrow> bool" where
  "read_gate c s k =
     ((pr_pc (producers s k) = PMid \<or> pr_pc (producers s k) = PSel \<longrightarrow>
         pr_lo (producers s k) \<le> pr_i (producers s k)
         \<and> m_concurrency c * 2 \<le> pr_lo (producers s k)
         \<and> pr_lo (producers s k) \<le> counters s DELETE + m_concurrency c * 2)
      \<and> (pr_pc (producers s k) = PSel \<longrightarrow>
         pr_i (producers s k) \<le> pr_hi (producers s k)
         \<and> pr_hi (producers s k) + m_concurrency c * 2 \<le> counters s PUT))"

definition minv :: "mixed \<Rightarrow> mstate \<Rightarrow> bool" where
  "minv c s =
     ((\<forall>k. 0 \<le> counters s k) \<and> delete_gate s
      \<and> (\<forall>k. k \<noteq> DELETE \<and> k \<noteq> PUT \<longrightarrow> read_gate c s k)
      \<and> pr_pc (producers s PUT) \<noteq> PTop \<and> pr_pc (producers s PUT) \<noteq> PMid
      \<and> pr_pc (producers s PUT) \<noteq> PPoll \<and> pr_pc (producers s DELETE) \<noteq> PMid)"

text \<open>
  The index that a producer puts on its channel when its send follows a run, with the
  values of \<^verbatim>\<open>deletes\<close> and \<^verbatim>\<open>puts\<close> at that moment.
\<close>

definition dispatch_after :: "mixed \<Rightarrow> int \<Rightarrow> mevent list \<Rightarrow> kind \<Rightarrow> (int \<times> int \<times> int) option" where
  "dispatch_after c t0 es k =
     (case mrun c t0 es of
        None \<Rightarrow> None
      | Some s \<Rightarrow>
          (case mstep c (ProducerSend k) s of
             None \<Rightarrow> None
           | Some s' \<Rightarrow> Some (last (chans s' k), counters s DELETE, counters s PUT)))"

text \<open>
  One PUT from dispatch to completion with a single worker, and the state after \<open>n\<close> of
  them: \<open>n\<close> more objects created.
\<close>

definition put_cycle :: "mevent list" where
  "put_cycle = [ProducerSend PUT, WorkerRecv PUT 0, WorkerComplete PUT 0 201]"

definition after_put :: "mstate \<Rightarrow> mstate" where
  "after_put s =
     s\<lparr>counters := (counters s)(PUT := counters s PUT + 1),
       producers :=
         (producers s)(PUT := (producers s PUT)\<lparr>pr_i := pr_i (producers s PUT) + 1, pr_pc := PSel\<rparr>),
       m_requests := m_requests s @ [(PUT, pr_i (producers s PUT))],
       dispatched := (dispatched s)(PUT := dispatched s PUT @ [pr_i (producers s PUT)])\<rparr>"

definition put_ready :: "mixed \<Rightarrow> mstate \<Rightarrow> bool" where
  "put_ready c s =
     (m_exited s = None \<and> \<not> m_reported s \<and> chans s PUT = [] \<and> pool s PUT = [WRecv]
      \<and> pr_pc (producers s PUT) = PSel \<and> 1 \<le> m_concurrency c)"

fun after_puts :: "nat \<Rightarrow> mstate \<Rightarrow> mstate" where
  "after_puts 0 s = s"
| "after_puts (Suc n) s = after_puts n (after_put s)"

text \<open>
  The events of a shutdown: no producer sends, and no response makes the process exit.
\<close>

definition quiet_event :: "mevent \<Rightarrow> bool" where
  "quiet_event e =
     (case e of ProducerSend k \<Rightarrow> False | WorkerComplete k w st \<Rightarrow> st div 100 = 2 | _ \<Rightarrow> True)"

text \<open>
  A measure of what the goroutines of bench-mixed still have to do before they return.
\<close>

definition pmu :: "ppc \<Rightarrow> nat" where
  "pmu pc = (case pc of PTop \<Rightarrow> 4 | PMid \<Rightarrow> 3 | PPoll \<Rightarrow> 2 | PSel \<Rightarrow> 2 | PExit \<Rightarrow> 0)"

definition kmu :: "mstate \<Rightarrow> kind \<Rightarrow> nat" where
  "kmu s k = sum_list (map wmu (pool s k)) + pmu (pr_pc (producers s k))"

definition mmu :: "mstate \<Rightarrow> nat" where
  "mmu s = sum_list (map (kmu s) kinds) + (if reporter_exited s then 0 else 1)
      + (if m_reported s then 0 else 1)"

text \<open>
  The shape of a throughput file: its header, the baseline row written at start time, and
  rows of a given width.
\<close>

definition rows_ok :: "string list \<Rightarrow> string list \<Rightarrow> nat \<Rightarrow> string list list \<Rightarrow> bool" where
  "rows_ok header baseline n rows =
     (\<exists>rest. rows = header # baseline # rest \<and> (\<forall>r \<in> set rest. length r = n))"

text \<open>
  The values the workers of a pool of bench-mixed hold, the indices of the requests made
  for a kind, and the conservation of dispatches: every value sent on a task channel is
  in the channel, held by a worker, or has been made into exactly one request; once the
  process has exited the requests are still among the values dispatched.
\<close>

definition minflight :: "wstate \<Rightarrow> int multiset" where
  "minflight w = (case w of WCall i \<Rightarrow> {#i#} | _ \<Rightarrow> {#})"

definition mpool :: "wstate list \<Rightarrow> int multiset" where
  "mpool ws = sum_list (map minflight ws)"

definition mreq :: "mstate \<Rightarrow> kind \<Rightarrow> int multiset" where
  "mreq s k = mset (map snd (filter (\<lambda>p. fst p = k) (m_requests s)))"

definition mconserved :: "mstate \<Rightarrow> bool" where
  "mconserved s =
     (\<forall>k. if m_exited s = None
          then mset (dispatched s k) = mset (chans s k) + mpool (pool s k) + mreq s k
          else mreq s k \<subseteq># mset (dispatched s k))"

subsection \<open>Sample runs of bench-mixed\<close>

text \<open>
  Flag values with one worker per pool (and with continue-on-error set), one round of the
  DELETE producer and a DELETE worker, a schedule in which three deletions complete between
  the loads and the send of the GET producer, and a schedule in which the GET producer
  computes its window over ten objects.
\<close>

definition fl_mix :: flags where
  "fl_mix = \<lparr> f_container = ''c'', f_object = ''o'', f_containers = 1, f_count = 0,
      f_iterations = 0, f_size = 10, f_maxsize = 0, f_concurrency = 1,
      f_continueOnError = False, f_csvot = True \<rparr>"

definition delete_round :: "mevent list" where
  "delete_round =
     [ProducerLoad DELETE, ProducerSend DELETE, WorkerRecv DELETE 0, WorkerComplete DELETE 0 204]"

definition es_race :: "mevent list" where
  "es_race = concat (replicate 10002 put_cycle) @ [ProducerLoad GET, ProducerLoadHi GET]
     @ delete_round @ delete_round @ delete_round"

definition es_read :: "mevent list" where
  "es_read = concat (replicate 10 put_cycle) @ [ProducerLoad GET, ProducerLoadHi GET]"

definition fl_skip :: flags where
  "fl_skip = \<lparr> f_container = ''c'', f_object = ''o'', f_containers = 1, f_count = 2,
      f_iterations = 0, f_size = 0, f_maxsize = 0, f_concurrency = 1,
      f_continueOnError = True, f_csvot = False \<rparr>"

section \<open>The earlier mixed driver: one channel, operations interleaved by a ratio table\<close>

text \<open>
  \<^verbatim>\<open>strings.Split(s, ",")\<close> for a one-character separator: the pieces between the separators,
  one piece (the empty string) for the empty string.
\<close>

fun split_on :: "char \<Rightarrow> string \<Rightarrow> string list" where
  "split_on sep [] = [[]]"
| "split_on sep (ch # cs) =
     (if ch = sep then [] # split_on sep cs
      else (case split_on sep cs of [] \<Rightarrow> [[ch]] | piece # pieces \<Rightarrow> (ch # piece) # pieces))"

text \<open>
  \<^verbatim>\<open>strconv.Atoi\<close>: an optional sign and at least one decimal digit, the value within the
  range of a 64-bit \<^verbatim>\<open>int\<close>; anything else is an error.
\<close>

definition digit_val :: "char \<Rightarrow> nat option" where
  "digit_val ch =
     (if ch = CHR ''0'' then Some 0 else if ch = CHR ''1'' then Some 1
      else if ch = CHR ''2'' then Some 2 else if ch = CHR ''3'' then Some 3
      else if ch = CHR ''4'' then Some 4 else if ch = CHR ''5'' then Some 5
      else if ch = CHR ''6'' then Some 6 else if ch = CHR ''7'' then Some 7
      else if ch = CHR ''8'' then Some 8 else if ch = CHR ''9'' then Some 9 else None)"

fun parse_digits :: "string \<Rightarrow> nat \<Rightarrow> nat option" where
  "parse_digits [] acc = Some acc"
| "parse_digits (ch # cs) acc =
     (case digit_val ch of None \<Rightarrow> None | Some d \<Rightarrow> parse_digits cs (acc * 10 + d))"

definition Atoi :: "string \<Rightarrow> int option" where
  "Atoi s =
     (let (neg, ds) =
        (case s of
           [] \<Rightarrow> (False, [])
         | ch # cs \<Rightarrow>
             if ch = CHR ''-'' then (True, cs)
             else if ch = CHR ''+'' then (False, cs) else (False, s))
      in if ds = [] then None
         else (case parse_digits ds 0 of
                 None \<Rightarrow> None
               | Some n \<Rightarrow>
                   (let v = (if neg then - int n else int n)
                    in if - (2 ^ 63) \<le> v \<and> v < 2 ^ 63 then Some v else None)))"

text \<open>
  The operation-order table; \<open>None\<close> is the \<^verbatim>\<open>fatalf\<close> of a bad \<^verbatim>\<open>-ratios\<close> value:
  \<^verbatim>\<open>
  ratios := strings.Split(*benchMixedFlagRatios, ",")
  if len(ratios) != 5 { fatalf(...) }
  var opOrder []int
  for op, ratio := range ratios {
      n, err := strconv.Atoi(ratio)
      if err != nil { fatalf(...) }
      for x := 0; x < n; x++ { opOrder = append(opOrder, op) }
  }
  \<close>
\<close>

definition op_order :: "string \<Rightarrow> int list option" where
  "op_order ratios =
     (let rs = split_on CHR '','' ratios
      in if length rs \<noteq> 5 then None
         else (case those (map Atoi rs) of
                 None \<Rightarrow> None
               | Some ns \<Rightarrow>
                   Some (concat (map (\<lambda>(op, n). replicate (nat n) op) (zip [0, 1, 2, 3, 4] ns)))))"

text \<open>
  The operation codes \<^verbatim>\<open>delet = 0\<close> to \<^verbatim>\<open>put = 4\<close>; any other code makes the worker
  panic at \<^verbatim>\<open>methods[op]\<close>.
\<close>

definition op_kind :: "int \<Rightarrow> kind option" where
  "op_kind op =
     (if op = 0 then Some DELETE else if op = 1 then Some GET else if op = 2 then Some HEAD
      else if op = 3 then Some POST else if op = 4 then Some PUT else None)"

text \<open>
  The state of a run: the loop counter \<^verbatim>\<open>x\<close>, the value the \<^verbatim>\<open>select\<close> is about to
  send (none at the head of the loop), \<^verbatim>\<open>sentDeletes\<close> and \<^verbatim>\<open>sentPuts\<close>, the channel, the
  workers (a busy worker holds the value it received), the five counters, the requests
  made, standard error and the exit status.
\<close>

record astate =
  a_phase :: phase
  a_x :: int
  a_pending :: "int option"
  a_sentDeletes :: int
  a_sentPuts :: int
  a_chan :: "int list"
  a_closed :: bool
  a_workers :: "wstate list"
  a_counters :: "kind \<Rightarrow> int"
  a_requests :: "(kind \<times> int) list"
  a_stderr :: "diag list"
  a_exited :: "int option"

datatype aevent =
  ALoop | ASend | ATimespan | AUpdate int | AClose | ARecv nat | AComplete nat nat | AFinish int

text \<open>
  The body of \<^verbatim>\<open>requestLoop\<close> up to its \<^verbatim>\<open>select\<close>:
  \<^verbatim>\<open>
  op := opOrder[x%len(opOrder)]
  switch op {
  case delet:
      if atomic.LoadInt64(&puts) < 1000 { continue }
      sentDeletes++
      i = sentDeletes
  case put:
      sentPuts++
      i = sentPuts
  default:
      rang := (int(atomic.LoadInt64(&puts)) - sentDeletes) / 2
      if rang < 1000 { continue }
      i = sentDeletes + rang/2 + (x % rang)
  }
  ... benchChan <- i<<4 | op
  \<close>
  An empty table makes \<^verbatim>\<open>x%len(opOrder)\<close> panic, and so would a negative index.
\<close>

definition loop_body :: "int list \<Rightarrow> astate \<Rightarrow> astate" where
  "loop_body opOrder s =
     (if opOrder = [] \<or> go_rem (a_x s) (int (length opOrder)) < 0 then s\<lparr>a_exited := Some 2\<rparr>
      else
        (let x = a_x s; op = opOrder ! nat (go_rem x (int (length opOrder)))
         in if op = 0
            then (if a_counters s PUT < 1000 then s\<lparr>a_x := x + 1\<rparr>
                  else s\<lparr>a_sentDeletes := a_sentDeletes s + 1,
                         a_pending := Some (push_bit 4 (a_sentDeletes s + 1) OR op)\<rparr>)
            else if op = 4
            then s\<lparr>a_sentPuts := a_sentPuts s + 1,
                   a_pending := Some (push_bit 4 (a_sentPuts s + 1) OR op)\<rparr>
            else (let rang = go_quot (a_counters s PUT - a_sentDeletes s) 2
                  in if rang < 1000 then s\<lparr>a_x := x + 1\<rparr>
                     else s\<lparr>a_pending :=
                            Some (push_bit 4 (a_sentDeletes s + go_quot rang 2 + go_rem x rang)
                                  OR op)\<rparr>)))"

text \<open>
  The worker after its receive: the operation code is the low four bits of the value and
  the index the rest; the counter of the operation is incremented after the response:
  \<^verbatim>\<open>
  op := i & 0xf
  i >>= 4
  ...
  switch op {
  case delet:
      resp = c.DeleteObject(...)
      atomic.AddInt64(&deletes, 1)
  ...
  default:
      panic(fmt.Errorf("programming error: %d", op))
  }
  \<close>
\<close>

definition acomplete :: "mixed \<Rightarrow> nat \<Rightarrow> int \<Rightarrow> nat \<Rightarrow> astate \<Rightarrow> astate" where
  "acomplete c w v st s =
     (case op_kind (v AND 15) of
        None \<Rightarrow> s\<lparr>a_exited := Some 2\<rparr>
      | Some k \<Rightarrow>
          (let i = drop_bit 4 v;
               s1 = s\<lparr>a_counters := (a_counters s)(k := a_counters s k + 1),
                       a_requests := a_requests s @ [(k, i)]\<rparr>
           in if st div 100 \<noteq> 2
              then (if m_continueOnError c
                    then s1\<lparr>a_stderr := a_stderr s @ [mdiag c k i st],
                            a_workers := (a_workers s)[w := WRecv]\<rparr>
                    else s1\<lparr>a_stderr := a_stderr s @ [mdiag c k i st], a_exited := Some 1\<rparr>)
              else s1\<lparr>a_workers := (a_workers s)[w := WRecv]\<rparr>))"

definition arecv :: "nat \<Rightarrow> astate \<Rightarrow> astate option" where
  "arecv w s =
     (case a_chan s of
        v # rest \<Rightarrow>
          Some (s\<lparr>a_chan := rest,
                  a_workers := (a_workers s)[w := (if v = 0 then WExit else WCall v)]\<rparr>)
      | [] \<Rightarrow> if a_closed s then Some (s\<lparr>a_workers := (a_workers s)[w := WExit]\<rparr>) else None)"

text \<open>
  One step of a run: the loop body runs at the head of the loop; at the \<^verbatim>\<open>select\<close> the
  run timer ends the loop, the update ticker prints, or the send goes through and \<^verbatim>\<open>x\<close>
  is incremented; then the channel is closed and the workers drain it.
\<close>

definition astep :: "mixed \<Rightarrow> int list \<Rightarrow> aevent \<Rightarrow> astate \<Rightarrow> astate option" where
  "astep c opOrder e s =
     (if a_exited s \<noteq> None then None
      else case e of
        ALoop \<Rightarrow>
          if a_phase s = Running \<and> a_pending s = None then Some (loop_body opOrder s) else None
      | ASend \<Rightarrow>
          (case a_pending s of
             None \<Rightarrow> None
           | Some v \<Rightarrow>
               if a_phase s = Running \<and> int (length (a_chan s)) < m_concurrency c
               then Some (s\<lparr>a_chan := a_chan s @ [v], a_pending := None, a_x := a_x s + 1\<rparr>)
               else None)
      | ATimespan \<Rightarrow>
          if a_phase s = Running \<and> a_pending s \<noteq> None then Some (s\<lparr>a_phase := Closing\<rparr>)
          else None
      | AUpdate now \<Rightarrow> if a_phase s = Running \<and> a_pending s \<noteq> None then Some s else None
      | AClose \<Rightarrow>
          if a_phase s = Closing then Some (s\<lparr>a_closed := True, a_phase := Draining\<rparr>) else None
      | ARecv w \<Rightarrow>
          if w < length (a_workers s) \<and> a_workers s ! w = WRecv then arecv w s else None
      | AComplete w st \<Rightarrow>
          if w < length (a_workers s)
          then (case a_workers s ! w of WCall v \<Rightarrow> Some (acomplete c w v st s) | _ \<Rightarrow> None)
          else None
      | AFinish stop \<Rightarrow>
          if a_phase s = Draining \<and> (\<forall>w \<in> set (a_workers s). w = WExit)
          then Some (s\<lparr>a_phase := Reported\<rparr>) else None)"

definition ainit :: "mixed \<Rightarrow> astate" where
  "ainit c =
     \<lparr> a_phase = Running, a_x = 0, a_pending = None, a_sentDeletes = 0, a_sentPuts = 0,
       a_chan = [], a_closed = False, a_workers = replicate (nat (m_concurrency c)) WRecv,
       a_counters = (\<lambda>k. 0), a_requests = [], a_stderr = [], a_exited = None \<rparr>"

text \<open>
  A run of the earlier bench-mixed with a \<^verbatim>\<open>-ratios\<close> value: \<open>None\<close> when the value is
  refused before the run starts.
\<close>

definition arun :: "mixed \<Rightarrow> string \<Rightarrow> aevent list \<Rightarrow> astate option option" where
  "arun c ratios es =
     (case op_order ratios of
        None \<Rightarrow> None
      | Some opOrder \<Rightarrow> Some (run_events (astep c opOrder) es (ainit c)))"

subsection \<open>Invariant of the ratio-interleaved driver when the table holds DELETE and PUT only\<close>

text \<open>A value whose operation code is DELETE or PUT.\<close>

definition tag_ok :: "int \<Rightarrow> bool" where
  "tag_ok v = (v AND 15 = 0 \<or> v AND 15 = 4)"

text \<open>
  Every value waiting, about to be sent or held by a worker has such a code, the counters of
  the other kinds are zero and no request of another kind has been made.
\<close>

definition busy_ok :: "wstate \<Rightarrow> bool" where
  "busy_ok w = (case w of WCall v \<Rightarrow> tag_ok v | _ \<Rightarrow> True)"

definition ainv :: "astate \<Rightarrow> bool" where
  "ainv s =
     (list_all tag_ok (a_chan s) \<and> (case a_pending s of None \<Rightarrow> True | Some v \<Rightarrow> tag_ok v)
      \<and> list_all busy_ok (a_workers s)
      \<and> a_counters s GET = 0 \<and> a_counters s HEAD = 0 \<and> a_counters s POST = 0
      \<and> list_all (\<lambda>(k, i). k = DELETE \<or> k = PUT) (a_requests s))"

text \<open>A schedule in which two objects are created before the run timer fires.\<close>

definition es_ratio :: "aevent list" where
  "es_ratio = [ALoop, ALoop, ASend, ARecv 0, AComplete 0 201, ALoop, ALoop, AUpdate 60, ASend,
     ALoop, ALoop, ATimespan, AClose, ARecv 0, AComplete 0 201, ARecv 0, AFinish 99]"

section \<open>Properties of the drivers\<close>

subsection \<open>Executions\<close>

lemma run_events_append:
  "run_events step (es @ es') s =
     (case run_events step es s of None \<Rightarrow> None | Some s' \<Rightarrow> run_events step es' s')"
  by (induction es arbitrary: s) (auto split: option.splits)

lemma run_events_invariant:
  assumes "run_events step es s0 = Some s" and "P s0"
    and "\<And>e s s'. P s \<Longrightarrow> step e s = Some s' \<Longrightarrow> P s'"
  shows "P s"
  using assms(1,2)
proof (induction es arbitrary: s0)
  case Nil
  then show ?case by simp
next
  case (Cons e es)
  then show ?case using assms(3) by (auto split: option.splits)
qed

subsection \<open>Fixed-count drivers: the steps by cases, and the body length of bench-put\<close>

lemma put_body_size_range:
  assumes "put_body_size sz mx r = Some n"
  shows "if mx \<le> sz then n = sz else sz \<le> n \<and> n < mx"
proof (cases "mx > sz")
  case True
  then have "0 \<le> int r mod (mx - sz)" "int r mod (mx - sz) < mx - sz" by simp_all
  with True assms show ?thesis by (auto simp: put_body_size_def Intn_def)
next
  case False
  with assms show ?thesis by (simp add: put_body_size_def)
qed

lemma put_body_size_total: "\<exists>n. put_body_size sz mx r = Some n"
  by (auto simp: put_body_size_def Intn_def)

lemma body_size_total: "\<exists>body. body_size b r = Some body"
  using put_body_size_total[of "b_size b" "b_maxsize b" r] by (auto simp: body_size_def)

lemma complete_eq:
  assumes "body_size b r = Some body"
  shows "complete b w i st r s =
     (if st div 100 \<noteq> 2
      then (if b_continueOnError b
            then s\<lparr>requests := requests s @ [request_of b i st body],
                   stderr := stderr s @ [diag_of b i st],
                   workers := (workers s)[w := WRecv]\<rparr>
            else s\<lparr>requests := requests s @ [request_of b i st body],
                   stderr := stderr s @ [diag_of b i st],
                   exited := Some 1\<rparr>)
      else s\<lparr>requests := requests s @ [request_of b i st body],
             workers := (workers s)[w := WRecv]\<rparr>)"
  by (simp add: complete_def Let_def assms)

lemma fstep_cases [consumes 1, case_names Tick Send Close RecvVal RecvClosed Ok Skip Fatal Finish]:
  assumes "fstep b e s = Some s'"
  obtains
    (Tick) now where "e = Tick now" "exited s = None" "phase s = Running" "s' = tick b now s"
  | (Send) "e = Send" "exited s = None" "phase s = Running" 
        "int (length (benchChan s)) < b_concurrency b" "s' = send b s"
  | (Close) "e = Close" "exited s = None" "phase s = Closing" 
        "s' = s\<lparr>closed := True, phase := Draining\<rparr>"
  | (RecvVal) w v rest where "e = Recv w" "exited s = None" "w < length (workers s)" 
        "workers s ! w = WRecv" "benchChan s = v # rest"
        "s' = s\<lparr>benchChan := rest, workers := (workers s)[w := after_recv v]\<rparr>"
  | (RecvClosed) w where "e = Recv w" "exited s = None" "w < length (workers s)" 
        "workers s ! w = WRecv" "benchChan s = []" "closed s"
        "s' = s\<lparr>workers := (workers s)[w := WExit]\<rparr>"
  | (Ok) w i st r body where "e = Complete w st r" "exited s = None" "w < length (workers s)"
        "workers s ! w = WCall i" "body_size b r = Some body" "st div 100 = 2"
        "s' = s\<lparr>requests := requests s @ [request_of b i st body],
                workers := (workers s)[w := WRecv]\<rparr>"
  | (Skip) w i st r body where "e = Complete w st r" "exited s = None" "w < length (workers s)"
        "workers s ! w = WCall i" "body_size b r = Some body" "st div 100 \<noteq> 2"
        "b_continueOnError b"
        "s' = s\<lparr>requests := requests s @ [request_of b i st body],
                stderr := stderr s @ [diag_of b i st],
                workers := (workers s)[w := WRecv]\<rparr>"
  | (Fatal) w i st r body where "e = Complete w st r" "exited s = None" "w < length (workers s)"
        "workers s ! w = WCall i" "body_size b r = Some body" "st div 100 \<noteq> 2"
        "\<not> b_continueOnError b"
        "s' = s\<lparr>requests := requests s @ [request_of b i st body],
                stderr := stderr s @ [diag_of b i st],
                exited := Some 1\<rparr>"
  | (Finish) stop sts where "e = Finish stop sts" "exited s = None" "phase s = Draining"
        "\<forall>w \<in> set (workers s). w = WExit" "length sts = length (cleanup_containers b)"
        "s' = finish b stop sts s"
proof (cases e)
  case (Tick now)
  with assms that(1) show ?thesis by (auto simp: fstep_def split: if_splits)
next
  case Send
  with assms that(2) show ?thesis by (auto simp: fstep_def split: if_splits)
next
  case Close
  with assms that(3) show ?thesis by (auto simp: fstep_def split: if_splits)
next
  case (Recv w)
  with assms have *: "exited s = None" "w < length (workers s)" "workers s ! w = WRecv" 
     "recv w s = Some s'"
    by (auto simp: fstep_def split: if_splits)
  show ?thesis
  proof (cases "benchChan s")
    case Nil
    with * Recv that(5)[of w] show ?thesis 
      by (auto simp: recv_def after_recv_def split: if_splits)
  next
    case (Cons v rest)
    with * Recv that(4)[of w v rest] show ?thesis 
      by (auto simp: recv_def)
  qed
next
  case (Complete w st r)
  with assms obtain i where *: "exited s = None" "w < length (workers s)" 
     "workers s ! w = WCall i" "s' = complete b w i st r s"
    by (auto simp: fstep_def split: if_splits wstate.splits)
  obtain body where body: "body_size b r = Some body" using body_size_total by blast
  note ceq = complete_eq[OF body, of w i st s]
  show ?thesis
  proof (cases "st div 100 = 2")
    case True
    show ?thesis
      by (rule that(6)[OF Complete *(1-3) body True]) (simp add: *(4) ceq True)
  next
    case False
    show ?thesis
    proof (cases "b_continueOnError b")
      case True
      show ?thesis
        by (rule that(7)[OF Complete *(1-3) body False True]) (simp add: *(4) ceq False True)
    next
      case c: False
      show ?thesis
        by (rule that(8)[OF Complete *(1-3) body False c]) (simp add: *(4) ceq False c)
    qed
  qed
next
  case (Finish stop sts)
  with assms that(9) show ?thesis by (auto simp: fstep_def split: if_splits)
qed

lemma body_ok_request_of:
  assumes "b_kind b = PUT" "body_size b r = Some body"
  shows "body_ok b (request_of b i st body)"
proof -
  from assms obtain n where n: "put_body_size (b_size b) (b_maxsize b) r = Some n" "body = Some n"
    by (auto simp: body_size_def split: option.splits)
  from put_body_size_range[OF n(1)] n(2) show ?thesis
    by (simp add: body_ok_def request_of_def case_prod_beta)
qed

lemma requests_advance [simp]: "requests (advance b s) = requests s"
  by (simp add: advance_def enter_iteration_def)

lemma fstep_body_ok:
  assumes "fstep b e s = Some s'" "b_kind b = PUT" "\<forall>rq \<in> set (requests s). body_ok b rq" 
  shows "\<forall>rq \<in> set (requests s'). body_ok b rq"
  using assms
  by (cases rule: fstep_cases)
     (auto simp: tick_def send_def finish_def Let_def body_ok_request_of)

lemma frun_body_ok:
  assumes "b_kind b = PUT" "frun b t0 es = Some s"
  shows "\<forall>rq \<in> set (requests s). body_ok b rq"
  using assms(2) unfolding frun_def
  by (rule run_events_invariant) (use assms(1) fstep_body_ok in \<open>auto simp: finit_def enter_iteration_def\<close>)

text \<open>
  C6. In a bench-put run with configured size \<open>s \<ge> 0\<close> and maxsize \<open>m\<close>, every PUT
  request has a body of exactly \<open>s\<close> bytes when \<open>m \<le> s\<close>, and of a length in \<open>[s, m)\<close>
  when \<open>m > s\<close>; with size 100 and maxsize 200 the length lies in \<open>[100, 200)\<close>.
\<close>

theorem put_body_length:
  assumes "0 \<le> f_size fl" and "b = bench_locals PUT fl"
    and "frun b t0 es = Some s" and "rq \<in> set (requests s)"
  shows "\<exists>n. rq_body rq = Some n \<and>
           (if f_maxsize fl \<le> f_size fl then n = f_size fl
            else f_size fl \<le> n \<and> n < f_maxsize fl)"
proof -
  have k: "b_kind b = PUT" using assms(2) by (simp add: bench_locals_def Let_def)
  have "body_ok b rq" using frun_body_ok[OF k assms(3)] assms(4) by blast
  then show ?thesis using assms(1,2)
    by (auto simp: body_ok_def bench_locals_def Let_def split: if_splits)
qed

subsection \<open>Fixed-count drivers: the invariant\<close>

lemma wf_bench_locals: "wf_bench (bench_locals k fl)"
  by (simp add: wf_bench_def bench_locals_def Let_def)

lemma pool_inflight_update:
  "w < length ws \<Longrightarrow>
     pool_inflight (ws[w := x]) + inflight (ws ! w) = pool_inflight ws + inflight x"
  unfolding pool_inflight_def
proof (induction ws arbitrary: w)
  case Nil
  then show ?case by simp
next
  case (Cons a ws)
  then show ?case by (cases w) (auto simp: ac_simps)
qed

lemma pool_inflight_replicate [simp]: "pool_inflight (replicate n WRecv) = {#}"
  by (induction n) (simp_all add: pool_inflight_def inflight_def)

lemma pool_inflight_idle:
  "w < length ws \<Longrightarrow> inflight (ws ! w) = {#} \<Longrightarrow> inflight x = {#} \<Longrightarrow>
     pool_inflight (ws[w := x]) = pool_inflight ws"
  using pool_inflight_update[of w ws x] by simp

lemma pool_inflight_take:
  "w < length ws \<Longrightarrow> ws ! w = WRecv \<Longrightarrow>
     pool_inflight (ws[w := WCall i]) = add_mset (i + 1) (pool_inflight ws)"
  using pool_inflight_update[of w ws "WCall i"] by (simp add: inflight_def)

lemma pool_inflight_done:
  "w < length ws \<Longrightarrow> ws ! w = WCall i \<Longrightarrow>
     add_mset (i + 1) (pool_inflight (ws[w := WRecv])) = pool_inflight ws"
  using pool_inflight_update[of w ws "WRecv"] by (simp add: inflight_def)

lemma sent_upto_next:
  assumes "1 \<le> i"
  shows "sent_upto b it i @ [i] = sent_upto b it (i + 1)"
  using assms by (simp add: sent_upto_def upto_rec2[of 1 i])

lemma sent_upto_wrap:
  assumes "0 \<le> it" "1 \<le> b_count b"
  shows "sent_upto b it (b_count b) @ [b_count b] = sent_upto b (it + 1) 1"
proof -
  have "nat (it + 1) = Suc (nat it)" using assms(1) by simp
  moreover have "[1..b_count b - 1] @ [b_count b] = [1..b_count b]"
    using assms(2) by (simp add: upto_rec2[of 1 "b_count b"])
  moreover have "concat (replicate n xs) @ xs = xs @ concat (replicate n xs)" for n and xs :: "int list"
    by (induction n) simp_all
  ultimately show ?thesis by (simp add: sent_upto_def)
qed

lemma sent_upto_all: "sent_upto b (b_iterations b) 1 = all_tasks b"
  by (simp add: sent_upto_def all_tasks_def)

lemma sent_upto_start: "sent_upto b 0 1 = []"
  by (simp add: sent_upto_def)

lemma set_sent_upto: 
  assumes "i \<le> b_count b"
  shows "set (sent_upto b it i) \<subseteq> {1..b_count b}"
  using assms by (auto simp: sent_upto_def)

lemma set_all_tasks: "set (all_tasks b) \<subseteq> {1..b_count b}"
  by (auto simp: all_tasks_def)

lemma position_ok_sent:
  assumes "position_ok b s"
  shows "set (sent s) \<subseteq> {1..b_count b}"
  using assms set_sent_upto[of "p_i s" b "p_iteration s"] set_all_tasks[of b]
  by (cases "phase s = Running") (simp_all add: position_ok_def)

lemma tick_fields [simp]:
  "phase (tick b now s) = phase s" "p_iteration (tick b now s) = p_iteration s"
  "p_i (tick b now s) = p_i s" "benchChan (tick b now s) = benchChan s"
  "closed (tick b now s) = closed s" "workers (tick b now s) = workers s"
  "sent (tick b now s) = sent s" "requests (tick b now s) = requests s"
  "stderr (tick b now s) = stderr s" "exited (tick b now s) = exited s"
  by (simp_all add: tick_def Let_def)

lemma finish_fields [simp]:
  "phase (finish b stop sts s) = Reported" "p_iteration (finish b stop sts s) = p_iteration s"
  "p_i (finish b stop sts s) = p_i s" "benchChan (finish b stop sts s) = benchChan s"
  "closed (finish b stop sts s) = closed s" "workers (finish b stop sts s) = workers s"
  "sent (finish b stop sts s) = sent s" "requests (finish b stop sts s) = requests s"
  "exited (finish b stop sts s) = exited s" "progress (finish b stop sts s) = progress s"
  "lastSoFar (finish b stop sts s) = lastSoFar s"
  by (simp_all add: finish_def)

lemma send_fields [simp]:
  "benchChan (send b s) = benchChan s @ [p_i s]" "closed (send b s) = closed s"
  "workers (send b s) = workers s" "sent (send b s) = sent s @ [p_i s]"
  "requests (send b s) = requests s" "stderr (send b s) = stderr s"
  "exited (send b s) = exited s" "progress (send b s) = progress s"
  "lastSoFar (send b s) = lastSoFar s" "csvotw (send b s) = csvotw s"
  by (simp_all add: send_def advance_def enter_iteration_def)

lemma issued_simps [simp]:
  "issued (tick b now s) = issued s" "issued (finish b stop sts s) = issued s"
  "issued (send b s) = issued s"
  by (simp_all add: issued_def)

lemma rq_index_request_of [simp]: "rq_index (request_of b i st body) = i"
  by (simp add: request_of_def case_prod_beta)

lemma send_position:
  assumes "wf_bench b" "position_ok b s" "phase s = Running"
  shows "position_ok b (send b s)"
proof (cases "p_i s + 1 \<le> b_count b")
  case True
  with assms(2,3) sent_upto_next[of "p_i s" b "p_iteration s"] show ?thesis
    by (simp add: position_ok_def send_def advance_def)
next
  case False
  with assms(2,3) have i: "p_i s = b_count b"
    by (auto simp: position_ok_def)
  with assms(2,3) have it: "0 \<le> p_iteration s" 
    and snt: "sent s = sent_upto b (p_iteration s) (b_count b)"
    and lt: "p_iteration s < b_iterations b" and nc: "\<not> closed s"
    by (auto simp: position_ok_def)
  from assms(1) have c1: "1 \<le> b_count b" by (simp add: wf_bench_def)
  note wrap = sent_upto_wrap[OF it c1]
  show ?thesis
  proof (cases "p_iteration s + 1 < b_iterations b")
    case True
    with False i it snt c1 wrap nc show ?thesis
      by (simp add: position_ok_def send_def advance_def enter_iteration_def)
  next
    case last: False
    with lt have "p_iteration s + 1 = b_iterations b" by simp
    with wrap sent_upto_all[of b] have "sent_upto b (p_iteration s) (b_count b) @ [b_count b] = all_tasks b"
      by simp
    with False last i snt nc show ?thesis
      by (simp add: position_ok_def send_def advance_def enter_iteration_def)
  qed
qed

lemma chan_values:
  assumes "position_ok b s" "conserved s" "exited s = None" "v \<in> set (benchChan s)"
  shows "1 \<le> v \<and> v \<le> b_count b"
proof -
  from assms(2,3) have "mset (benchChan s) \<subseteq># mset (sent s)"
    by (simp add: conserved_def)
  then have "set (benchChan s) \<subseteq> set (sent s)" using set_mset_mono by fastforce
  with assms(4) position_ok_sent[OF assms(1)] show ?thesis by auto
qed

lemma fstep_position:
  assumes "fstep b e s = Some s'" "wf_bench b" "position_ok b s"
  shows "position_ok b s'"
  using assms(1)
proof (cases rule: fstep_cases)
  case Send
  with assms(2,3) send_position[of b s] show ?thesis by simp
next
  case Close
  with assms(3) show ?thesis by (simp add: position_ok_def)
next
  case (Finish stop sts)
  with assms(3) show ?thesis by (simp add: position_ok_def)
qed (use assms(3) in \<open>simp_all add: position_ok_def\<close>)

lemma fstep_workers:
  assumes "fstep b e s = Some s'" "position_ok b s" "conserved s" "pool_ok s"
  shows "length (workers s') = length (workers s) \<and> pool_ok s'"
  using assms(1)
proof (cases rule: fstep_cases)
  case (Tick now)
  with assms(4) show ?thesis by (simp add: pool_ok_def)
next
  case Send
  with assms(2,4) show ?thesis by (auto simp: pool_ok_def position_ok_def send_def advance_def enter_iteration_def)
next
  case Close
  with assms(2,4) show ?thesis by (auto simp: pool_ok_def position_ok_def)
next
  case (RecvVal w v rest)
  with assms(2,3) chan_values[of b s v] have v: "v \<noteq> 0" by auto
  then have ar: "after_recv v = WCall (v - 1)" by (simp add: after_recv_def)
  have "set ((workers s)[w := WCall (v - 1)]) \<subseteq> insert (WCall (v - 1)) (set (workers s))"
    by (rule set_update_subset_insert)
  moreover have "workers s ! w \<in> set (workers s)" using RecvVal(3) by (rule nth_mem)
  ultimately show ?thesis using RecvVal assms(4) ar by (auto simp: pool_ok_def)
next
  case (RecvClosed w)
  have "workers s ! w \<in> set (workers s)" using RecvClosed(3) by (rule nth_mem)
  with RecvClosed assms(4) show ?thesis by (auto simp: pool_ok_def)
next
  case (Ok w i st r body)
  have "set ((workers s)[w := WRecv]) \<subseteq> insert WRecv (set (workers s))"
    by (rule set_update_subset_insert)
  moreover have "workers s ! w \<in> set (workers s)" using Ok(3) by (rule nth_mem)
  ultimately show ?thesis using Ok assms(4) by (auto simp: pool_ok_def)
next
  case (Skip w i st r body)
  have "set ((workers s)[w := WRecv]) \<subseteq> insert WRecv (set (workers s))"
    by (rule set_update_subset_insert)
  moreover have "workers s ! w \<in> set (workers s)" using Skip(3) by (rule nth_mem)
  ultimately show ?thesis using Skip assms(4) by (auto simp: pool_ok_def)
next
  case (Fatal w i st r body)
  have "workers s ! w \<in> set (workers s)" using Fatal(3) by (rule nth_mem)
  with Fatal assms(4) show ?thesis by (auto simp: pool_ok_def)
next
  case (Finish stop sts)
  with assms(2,4) show ?thesis by (auto simp: pool_ok_def position_ok_def)
qed

lemma fstep_conserved:
  assumes "fstep b e s = Some s'" "position_ok b s" "conserved s"
  shows "conserved s'"
  using assms(1)
proof (cases rule: fstep_cases)
  case (RecvVal w v rest)
  with assms(2,3) chan_values[of b s v] have v: "v \<noteq> 0" by auto
  then have ar: "after_recv v = WCall (v - 1)" by (simp add: after_recv_def)
  with RecvVal assms(3) pool_inflight_take[of w "workers s" "v - 1"] show ?thesis
    by (simp add: conserved_def issued_def)
next
  case (RecvClosed w)
  with assms(3) pool_inflight_idle[of w "workers s" WExit] show ?thesis
    by (simp add: conserved_def issued_def inflight_def)
next
  case (Ok w i st r body)
  with assms(3) pool_inflight_done[of w "workers s" i] show ?thesis
    by (auto simp: conserved_def issued_def)
next
  case (Skip w i st r body)
  with assms(3) pool_inflight_done[of w "workers s" i] show ?thesis
    by (auto simp: conserved_def issued_def)
next
  case (Fatal w i st r body)
  define X where "X = pool_inflight ((workers s)[w := WRecv])"
  from Fatal pool_inflight_done[of w "workers s" i]
  have "pool_inflight (workers s) = add_mset (i + 1) X" by (simp add: X_def)
  then have "add_mset (i + 1) (issued s) \<subseteq># pool_inflight (workers s) + issued s"
    by simp
  also have "\<dots> \<subseteq># mset (sent s)" using Fatal assms(3) by (simp add: conserved_def)
  finally show ?thesis using Fatal by (simp add: conserved_def issued_def)
qed (use assms(3) in \<open>simp_all add: conserved_def issued_def\<close>)

lemma fstep_finv:
  assumes "fstep b e s = Some s'" "wf_bench b" "finv b s"
  shows "finv b s'"
  using fstep_position[OF assms(1,2)] fstep_conserved[OF assms(1)] fstep_workers[OF assms(1)]
    assms(3)
  by (simp add: finv_def)

lemma finit_finv:
  assumes "wf_bench b"
  shows "finv b (finit b now)"
  using assms sent_upto_start[of b]
  by (simp add: finv_def finit_def enter_iteration_def wf_bench_def position_ok_def
      conserved_def issued_def pool_ok_def)

lemma frun_finv:
  assumes "wf_bench b" "frun b now es = Some s"
  shows "finv b s"
  using assms(2) unfolding frun_def
  by (rule run_events_invariant) (use assms(1) finit_finv fstep_finv in auto)

lemma frun_put_example:
  "\<exists>s. frun (bench_locals PUT fl_put) 0 [Send, Recv 0, Complete 0 201 12345] = Some s
     \<and> map rq_body (requests s) = [Some 145]"
  by (simp add: fl_put_def frun_def bench_locals_def has_iterations_def finit_def
      enter_iteration_def fstep_def send_def advance_def recv_def after_recv_def Let_def
      complete_def body_size_def put_body_size_def Intn_def request_of_def task_names_def)

theorem put_body_length_witness:
  "0 \<le> f_size fl_put \<and> f_size fl_put = 100 \<and> f_maxsize fl_put = 200
   \<and> (\<exists>s. frun (bench_locals PUT fl_put) 0 [Send, Recv 0, Complete 0 201 12345] = Some s
        \<and> map rq_body (requests s) = [Some 145]
        \<and> (\<exists>n. rq_body (hd (requests s)) = Some n \<and> 100 \<le> n \<and> n < 200))"
proof -
  from frun_put_example obtain s where
    s: "frun (bench_locals PUT fl_put) 0 [Send, Recv 0, Complete 0 201 12345] = Some s
        \<and> map rq_body (requests s) = [Some 145]" by (rule exE)
  have sz: "0 \<le> f_size fl_put" "f_size fl_put = 100" "f_maxsize fl_put = 200"
    by (simp_all add: fl_put_def)
  from s have "requests s \<noteq> []" by auto
  then have mem: "hd (requests s) \<in> set (requests s)" by simp
  have r: "\<exists>n. rq_body (hd (requests s)) = Some n \<and> 100 \<le> n \<and> n < 200"
    using put_body_length[OF sz(1) refl s[THEN conjunct1] mem] sz by simp
  show ?thesis
    by (intro conjI exI[of _ s]) (fact sz s[THEN conjunct1] s[THEN conjunct2] r)+
qed

subsection \<open>Fixed-count drivers: the names of the requests\<close>

lemma go_rem_nonneg:
  assumes "0 \<le> a" "0 < b"
  shows "go_rem a b = a mod b"
proof -
  have "go_quot a b = a div b"
    using assms by (cases "a = 0") (simp_all add: go_quot_def)
  then show ?thesis by (simp add: go_rem_def minus_mult_div_eq_mod)
qed

lemma req_ok_request_of: "req_ok b (request_of b i st body)"
  by (simp add: req_ok_def request_of_def task_names_def)

lemma fstep_req_ok:
  assumes "fstep b e s = Some s'" "\<forall>rq \<in> set (requests s). req_ok b rq"
  shows "\<forall>rq \<in> set (requests s'). req_ok b rq"
  using assms
  by (cases rule: fstep_cases) (auto simp: req_ok_request_of)

lemma frun_req_ok:
  assumes "frun b t0 es = Some s"
  shows "\<forall>rq \<in> set (requests s). req_ok b rq"
  using assms unfolding frun_def
  by (rule run_events_invariant) (use fstep_req_ok in \<open>auto simp: finit_def enter_iteration_def\<close>)

lemma issued_sub_sent:
  assumes "conserved s"
  shows "issued s \<subseteq># mset (sent s)"
  using assms by (cases "exited s = None") (simp_all add: conserved_def)

lemma request_index_sent:
  assumes "conserved s" "rq \<in> set (requests s)"
  shows "rq_index rq + 1 \<in> set (sent s)"
proof -
  from assms(2) have "rq_index rq + 1 \<in># issued s" by (auto simp: issued_def)
  with issued_sub_sent[OF assms(1)] have "rq_index rq + 1 \<in># mset (sent s)"
    using mset_subset_eqD by metis
  then show ?thesis by simp
qed

lemma pool_inflight_exited:
  assumes "\<forall>w \<in> set ws. w = WExit"
  shows "pool_inflight ws = {#}"
  using assms by (induction ws) (simp_all add: pool_inflight_def inflight_def)

lemma reported_issued:
  assumes "wf_bench b" "finv b s" "phase s = Reported" "exited s = None"
  shows "issued s = mset (all_tasks b)"
proof -
  from assms(2,3) have ex: "\<forall>w \<in> set (workers s). w = WExit"
    by (simp add: finv_def pool_ok_def)
  from assms(1,2) have "workers s \<noteq> []" by (auto simp: finv_def wf_bench_def)
  then obtain w where "w \<in> set (workers s)" by (cases "workers s") auto
  with ex have "WExit \<in> set (workers s)" by auto
  with assms(2) have "benchChan s = []" by (simp add: finv_def pool_ok_def)
  with assms(2,3,4) pool_inflight_exited[OF ex] show ?thesis
    by (auto simp: finv_def conserved_def position_ok_def)
qed

lemma set_all_tasks_eq:
  assumes "1 \<le> b_iterations b"
  shows "set (all_tasks b) = {1..b_count b}"
proof -
  from assms obtain n where "nat (b_iterations b) = Suc n" by (cases "nat (b_iterations b)") auto
  then show ?thesis by (simp add: all_tasks_def)
qed

text \<open>
  C10. A worker takes a received 0 as the signal to leave its loop and decrements every
  other value before it derives names. The producer sends the values 1 to \<open>count\<close>, so
  every request of a run is for the object \<open>prefix + (v - 1)\<close> of a sent value \<open>v\<close>, in
  the container with suffix \<open>(v - 1) mod containers\<close> when there are several containers,
  and a run that reaches its report has operated on exactly the object names
  \<open>prefix + 0\<close> to \<open>prefix + (count - 1)\<close>.
\<close>

theorem worker_sentinel_and_names:
  assumes "b = bench_locals k fl" and "frun b t0 es = Some s"
  shows "after_recv 0 = WExit \<and> (\<forall>v. v \<noteq> 0 \<longrightarrow> after_recv v = WCall (v - 1))
    \<and> (\<forall>rq \<in> set (requests s). \<exists>v \<in> set (sent s).
          1 \<le> v \<and> v \<le> b_count b \<and> rq_index rq = v - 1
          \<and> rq_object rq = b_object b @ itoa (v - 1)
          \<and> rq_container rq =
              (if b_containers b > 1
               then b_container b @ itoa ((v - 1) mod b_containers b)
               else b_container b))
    \<and> (phase s = Reported \<and> exited s = None \<longrightarrow>
          rq_object ` set (requests s) = (\<lambda>j. b_object b @ itoa j) ` {0..b_count b - 1})"
proof -
  have wf: "wf_bench b" using assms(1) wf_bench_locals by simp
  have inv: "finv b s" using frun_finv[OF wf assms(2)] .
  then have cons: "conserved s" and pos: "position_ok b s" by (simp_all add: finv_def)
  note rok = frun_req_ok[OF assms(2)]
  have names: "\<exists>v \<in> set (sent s).
          1 \<le> v \<and> v \<le> b_count b \<and> rq_index rq = v - 1
          \<and> rq_object rq = b_object b @ itoa (v - 1)
          \<and> rq_container rq =
              (if b_containers b > 1
               then b_container b @ itoa ((v - 1) mod b_containers b)
               else b_container b)" if rq: "rq \<in> set (requests s)" for rq
  proof -
    let ?v = "rq_index rq + 1"
    have v: "?v \<in> set (sent s)" using request_index_sent[OF cons rq] .
    with position_ok_sent[OF pos] have rng: "1 \<le> ?v" "?v \<le> b_count b" by auto
    have "req_ok b rq" using rok rq by blast
    moreover have "go_rem (rq_index rq) (b_containers b) = rq_index rq mod b_containers b"
      if "b_containers b > 1"
      using go_rem_nonneg[of "rq_index rq" "b_containers b"] rng that by simp
    ultimately show ?thesis using v rng by (intro bexI[of _ ?v]) (auto simp: req_ok_def)
  qed
  have fin: "rq_object ` set (requests s) = (\<lambda>j. b_object b @ itoa j) ` {0..b_count b - 1}"
    if rep: "phase s = Reported" "exited s = None"
  proof -
    have "issued s = mset (all_tasks b)" using reported_issued[OF wf inv rep] .
    then have "set_mset (issued s) = set (all_tasks b)" by simp
    then have "(\<lambda>rq. rq_index rq + 1) ` set (requests s) = {1..b_count b}"
      using set_all_tasks_eq[of b] wf by (simp add: issued_def wf_bench_def)
    then have "(\<lambda>x. x - 1) ` ((\<lambda>rq. rq_index rq + 1) ` set (requests s))
        = (\<lambda>x. x - 1) ` {1..b_count b}"
      by simp
    then have idx: "rq_index ` set (requests s) = {0..b_count b - 1}"
      by (simp add: image_image)
    have "rq_object ` set (requests s) = (\<lambda>rq. b_object b @ itoa (rq_index rq)) ` set (requests s)"
      using rok by (auto simp: req_ok_def image_iff)
    also have "\<dots> = (\<lambda>j. b_object b @ itoa j) ` (rq_index ` set (requests s))"
      by (simp add: image_image)
    finally show ?thesis using idx by simp
  qed
  show ?thesis using names fin by (auto simp: after_recv_def)
qed

lemma del_example:
  "\<exists>s. frun (bench_locals DELETE fl_del) 0 es_del = Some s \<and> phase s = Reported \<and> exited s = None
    \<and> map rq_object (requests s) = [''o0'', ''o1'']
    \<and> map rq_container (requests s) = [''c0'', ''c1'']"
  by (simp add: fl_del_def es_del_def frun_def bench_locals_def has_iterations_def finit_def
      enter_iteration_def fstep_def send_def advance_def recv_def after_recv_def complete_def
      body_size_def task_names_def Let_def itoa_def digits.simps finish_def request_of_def
      diag_of_def cleanup_containers_def cleanup_diags_def total_count_def go_rem_def
      go_quot_def upto.simps)

theorem worker_sentinel_and_names_witness:
  "\<exists>s. frun (bench_locals DELETE fl_del) 0 es_del = Some s
     \<and> phase s = Reported \<and> exited s = None
     \<and> map rq_object (requests s) = [''o0'', ''o1'']
     \<and> map rq_container (requests s) = [''c0'', ''c1'']
     \<and> rq_object ` set (requests s) = (\<lambda>j. ''o'' @ itoa j) ` {0..2 - 1}"
proof -
  from del_example obtain s where ex:
    "frun (bench_locals DELETE fl_del) 0 es_del = Some s \<and> phase s = Reported \<and> exited s = None
    \<and> map rq_object (requests s) = [''o0'', ''o1'']
    \<and> map rq_container (requests s) = [''c0'', ''c1'']" by (rule exE)
  then have s: "frun (bench_locals DELETE fl_del) 0 es_del = Some s"
    "phase s = Reported" "exited s = None" by simp_all
  have b: "b_count (bench_locals DELETE fl_del) = 2" "b_object (bench_locals DELETE fl_del) = ''o''"
    "b_container (bench_locals DELETE fl_del) = ''c''" "b_containers (bench_locals DELETE fl_del) = 3"
    by (simp_all add: bench_locals_def fl_del_def Let_def)
  note th = worker_sentinel_and_names[OF refl s(1), unfolded b]
  have 1: "rq_object ` set (requests s) = (\<lambda>j. ''o'' @ itoa j) ` {0..2 - 1}"
    using th s(2,3) by blast
  show ?thesis using ex 1 by (intro exI[of _ s] conjI) simp_all
qed

subsection \<open>Fixed-count drivers: the progress estimate\<close>

lemma length_sent_upto:
  assumes "0 \<le> it" "1 \<le> i" "0 \<le> b_count b"
  shows "int (length (sent_upto b it i)) = it * b_count b + i - 1"
proof -
  have "length (concat (replicate n xs)) = n * length xs" for n and xs :: "int list"
    by (induction n) simp_all
  then have "length (sent_upto b it i) = nat it * nat (b_count b) + nat (i - 1)"
    by (simp add: sent_upto_def)
  then show ?thesis using assms by (simp add: nat_mult_distrib)
qed

lemma neg_example:
  "\<exists>s'. frun (bench_locals DELETE fl_neg) 0 [Tick 60] = Some s' \<and> progress s' = [- 1]"
  by (simp add: fl_neg_def frun_def bench_locals_def has_iterations_def finit_def
      enter_iteration_def fstep_def tick_def soFar_def Let_def)

lemma head_example:
  "map_option progress (frun (bench_locals HEAD fl_head) 0 (es_head @ [Tick 60])) = Some [2]
   \<and> map_option p_i (frun (bench_locals HEAD fl_head) 0 es_head) = Some 1
   \<and> map_option p_iteration (frun (bench_locals HEAD fl_head) 0 es_head) = Some 1
   \<and> map_option sent (frun (bench_locals HEAD fl_head) 0 es_head) = Some [1, 2]
   \<and> b_concurrency (bench_locals HEAD fl_head) = 1"
  by (simp add: fl_head_def es_head_def frun_def bench_locals_def has_iterations_def finit_def
      enter_iteration_def fstep_def send_def advance_def recv_def after_recv_def complete_def
      body_size_def task_names_def Let_def tick_def soFar_def request_of_def)

text \<open>
  The claim C8 as stated fails in the later iterations of bench-get and bench-head:
  bench-head with count 2, two iterations and concurrency 1 is, after the two sends of its
  first iteration, about to dispatch index \<open>i = 1\<close> again, and a tick then prints
  \<open>soFar = 2\<close>, not \<open>i - concurrency = 0\<close>.
\<close>

theorem soFar_counterexample:
  "map_option progress (frun (bench_locals HEAD fl_head) 0 (es_head @ [Tick 60])) = Some [2]
   \<and> map_option p_i (frun (bench_locals HEAD fl_head) 0 es_head) = Some 1
   \<and> map_option p_iteration (frun (bench_locals HEAD fl_head) 0 es_head) = Some 1
   \<and> b_concurrency (bench_locals HEAD fl_head) = 1
   \<and> (2::int) \<noteq> 1 - 1"
  using head_example by simp

text \<open>
  C8, amended. The \<open>soFar\<close> value printed at a progress tick is
  \<open>iteration \<sqdot> count + i - concurrency\<close>, where \<open>i\<close> is the index being dispatched and
  \<open>iteration\<close> the number of completed passes over the indices: one more than the number
  of tasks already sent, minus the concurrency level. In bench-delete, bench-post and
  bench-put, and in the first iteration of bench-get and bench-head, \<open>iteration\<close> is 0 and
  \<open>soFar = i - concurrency\<close>. It is an estimate only, negative exactly when the
  concurrency exceeds \<open>iteration \<sqdot> count + i\<close>: bench-delete with count 1 and
  concurrency 2 prints \<open>-1\<close> when the ticker fires before the first send.
\<close>

theorem soFar_estimate:
  assumes "b = bench_locals k fl" and "frun b t0 es = Some s"
    and "fstep b (Tick now) s = Some s'"
  shows "progress s' = progress s @ [soFar b s]
    \<and> soFar b s = (p_iteration s * b_count b + p_i s) - b_concurrency b
    \<and> p_iteration s * b_count b + p_i s = int (length (sent s)) + 1
    \<and> 0 \<le> p_iteration s \<and> p_iteration s < b_iterations b \<and> 1 \<le> p_i s \<and> p_i s \<le> b_count b
    \<and> (\<not> has_iterations k \<longrightarrow> p_iteration s = 0)
    \<and> (p_iteration s = 0 \<longrightarrow> soFar b s = p_i s - b_concurrency b)
    \<and> (soFar b s < 0 \<longleftrightarrow> b_concurrency b > p_iteration s * b_count b + p_i s)
    \<and> (\<exists>s''. frun (bench_locals DELETE fl_neg) 0 [Tick 60] = Some s'' \<and> progress s'' = [- 1])"
proof -
  have wf: "wf_bench b" using assms(1) wf_bench_locals by simp
  have k: "b_kind b = k" using assms(1) by (simp add: bench_locals_def Let_def)
  have inv: "finv b s" using frun_finv[OF wf assms(2)] .
  from assms(3) have run: "phase s = Running" and s': "s' = tick b now s"
    by (auto simp: fstep_def split: if_splits)
  from inv run have pos: "0 \<le> p_iteration s" "p_iteration s < b_iterations b" "1 \<le> p_i s"
    "sent s = sent_upto b (p_iteration s) (p_i s)" "p_i s \<le> b_count b"
    by (simp_all add: finv_def position_ok_def)
  from wf have c: "0 \<le> b_count b" by (simp add: wf_bench_def)
  have len: "p_iteration s * b_count b + p_i s = int (length (sent s)) + 1"
    using length_sent_upto[OF pos(1,3) c] pos(4) by simp
  have it0: "p_iteration s = 0" if "\<not> has_iterations k"
    using that wf k pos(1,2) by (simp add: wf_bench_def)
  have sf: "soFar b s = (p_iteration s * b_count b + p_i s) - b_concurrency b"
    using it0 k by (cases "has_iterations k") (simp_all add: soFar_def)
  have 1: "progress s' = progress s @ [soFar b s]"
    using s' by (simp add: tick_def Let_def)
  have 3: "p_iteration s = 0 \<longrightarrow> soFar b s = p_i s - b_concurrency b"
    using sf by simp
  have 4: "soFar b s < 0 \<longleftrightarrow> b_concurrency b > p_iteration s * b_count b + p_i s"
    using sf by linarith
  show ?thesis using 1 sf len pos it0 3 4 neg_example by blast
qed

lemma head_state:
  "\<exists>s s'. frun (bench_locals HEAD fl_head) 0 es_head = Some s
     \<and> fstep (bench_locals HEAD fl_head) (Tick 60) s = Some s'
     \<and> progress s' = [2] \<and> p_iteration s = 1 \<and> p_i s = 1 \<and> progress s = []"
  by (simp add: fl_head_def es_head_def frun_def bench_locals_def has_iterations_def finit_def
      enter_iteration_def fstep_def send_def advance_def recv_def after_recv_def complete_def
      body_size_def task_names_def Let_def tick_def soFar_def request_of_def)

theorem soFar_estimate_witness:
  "\<exists>s s'. frun (bench_locals HEAD fl_head) 0 es_head = Some s
     \<and> fstep (bench_locals HEAD fl_head) (Tick 60) s = Some s'
     \<and> progress s' = [2] \<and> p_iteration s = 1 \<and> p_i s = 1 \<and> progress s = []
     \<and> soFar (bench_locals HEAD fl_head) s = (1 * 2 + 1) - 1
     \<and> int (length (sent s)) + 1 = 1 * 2 + 1"
proof -
  from head_state obtain s s' where h:
    "frun (bench_locals HEAD fl_head) 0 es_head = Some s"
    "fstep (bench_locals HEAD fl_head) (Tick 60) s = Some s'"
    "progress s' = [2]" "p_iteration s = 1" "p_i s = 1" "progress s = []"
    by (elim exE conjE)
  have b: "b_count (bench_locals HEAD fl_head) = 2" "b_concurrency (bench_locals HEAD fl_head) = 1"
    by (simp_all add: bench_locals_def fl_head_def Let_def)
  note th = soFar_estimate[OF refl h(1,2), unfolded b h(4,5)]
  have 1: "soFar (bench_locals HEAD fl_head) s = (1 * 2 + 1) - 1"
    using th[THEN conjunct2, THEN conjunct1] .
  have 2: "int (length (sent s)) + 1 = 1 * 2 + 1"
    using th[THEN conjunct2, THEN conjunct2, THEN conjunct1] by simp
  show ?thesis
    by (rule exI[of _ s], rule exI[of _ s'], intro conjI) (fact h 1 2)+
qed

subsection \<open>Fixed-count drivers: termination and the requests of a finished run\<close>

lemma sum_list_map_update:
  fixes f :: "'a \<Rightarrow> nat"
  shows "w < length ws \<Longrightarrow>
     sum_list (map f (ws[w := x])) + f (ws ! w) = sum_list (map f ws) + f x"
proof (induction ws arbitrary: w)
  case Nil
  then show ?case by simp
next
  case (Cons a ws)
  then show ?case by (cases w) (auto simp: ac_simps)
qed

lemma todo_send:
  assumes "wf_bench b" "position_ok b s" "phase s = Running"
  shows "3 * todo b (send b s) + phase_rank (phase (send b s)) + 3 \<le> 3 * todo b s + phase_rank (phase s)"
proof -
  from assms have rng: "0 \<le> p_iteration s" "p_iteration s < b_iterations b" "1 \<le> p_i s"
    "p_i s \<le> b_count b" by (simp_all add: position_ok_def)
  define D where "D = (b_iterations b - p_iteration s) * b_count b"
  have "1 * b_count b \<le> (b_iterations b - p_iteration s) * b_count b"
    using rng by (intro mult_right_mono) simp_all
  then have big: "b_count b \<le> D" by (simp add: D_def)
  have now: "todo b s = nat (D - (p_i s - 1))" using assms(3) by (simp add: todo_def D_def)
  have rk: "phase_rank (phase s) = 3" using assms(3) by (simp add: phase_rank_def)
  show ?thesis
  proof (cases "p_i s + 1 \<le> b_count b")
    case True
    then have "todo b (send b s) = nat (D - p_i s)" "phase (send b s) = Running"
      using assms(3) by (simp_all add: todo_def send_def advance_def D_def)
    with now rk big True rng show ?thesis by (simp add: phase_rank_def)
  next
    case False
    with rng have i: "p_i s = b_count b" by simp
    show ?thesis
    proof (cases "p_iteration s + 1 < b_iterations b")
      case True
      have "(b_iterations b - (p_iteration s + 1)) * b_count b = D - b_count b"
        by (simp add: algebra_simps D_def)
      with True False i have "todo b (send b s) = nat (D - b_count b)" "phase (send b s) = Running"
        using assms(1,3) by (simp_all add: todo_def send_def advance_def enter_iteration_def wf_bench_def)
      with now rk big i rng show ?thesis by (simp add: phase_rank_def)
    next
      case last: False
      with False i have "todo b (send b s) = 0" "phase (send b s) = Closing"
        using assms(3) by (simp_all add: todo_def send_def advance_def enter_iteration_def)
      with now rk big i rng show ?thesis by (simp add: phase_rank_def)
    qed
  qed
qed

lemma fstep_measure:
  assumes "fstep b e s = Some s'" "wf_bench b" "finv b s" "ok_event e"
  shows "if is_tick e then fmu b s' = fmu b s else fmu b s' < fmu b s"
  using assms(1)
proof (cases rule: fstep_cases)
  case (Tick now)
  then show ?thesis by (simp add: is_tick_def fmu_def todo_def)
next
  case Send
  with assms(2,3) todo_send[of b s] show ?thesis
    by (simp add: is_tick_def fmu_def finv_def)
next
  case Close
  then show ?thesis by (simp add: is_tick_def fmu_def todo_def phase_rank_def)
next
  case (RecvVal w v rest)
  with assms(3) chan_values[of b s v] have v: "v \<noteq> 0" by (auto simp: finv_def)
  then have ar: "after_recv v = WCall (v - 1)" by (simp add: after_recv_def)
  with RecvVal sum_list_map_update[of w "workers s" wmu "WCall (v - 1)"] show ?thesis
    by (simp add: is_tick_def fmu_def todo_def wmu_def)
next
  case (RecvClosed w)
  with sum_list_map_update[of w "workers s" wmu WExit] show ?thesis
    by (simp add: is_tick_def fmu_def todo_def wmu_def)
next
  case (Ok w i st r body)
  with sum_list_map_update[of w "workers s" wmu WRecv] show ?thesis
    by (simp add: is_tick_def fmu_def todo_def wmu_def)
next
  case (Skip w i st r body)
  with assms(4) show ?thesis by (simp add: ok_event_def)
next
  case (Fatal w i st r body)
  with assms(4) show ?thesis by (simp add: ok_event_def)
next
  case (Finish stop sts)
  then show ?thesis by (simp add: is_tick_def fmu_def todo_def phase_rank_def)
qed

lemma fstep_ok_exited:
  assumes "fstep b e s = Some s'" "ok_event e"
  shows "exited s' = None"
  using assms by (cases rule: fstep_cases) (simp_all add: ok_event_def)

lemma fstep_progress:
  assumes "wf_bench b" "finv b s" "exited s = None" "phase s \<noteq> Reported"
  shows "\<exists>e s'. ok_event e \<and> \<not> is_tick e \<and> fstep b e s = Some s'"
proof -
  from assms(1,2) have len: "0 < length (workers s)" "length (workers s) = nat (b_concurrency b)"
    and c: "1 \<le> b_concurrency b"
    by (auto simp: finv_def wf_bench_def)
  from assms(2) have pool: "pool_ok s" and pos: "position_ok b s" by (simp_all add: finv_def)
  have worker: "\<exists>e s'. ok_event e \<and> \<not> is_tick e \<and> fstep b e s = Some s'"
    if w: "w < length (workers s)" "workers s ! w \<noteq> WExit" "benchChan s \<noteq> [] \<or> closed s" for w
  proof (cases "workers s ! w")
    case WRecv
    with w(1,3) assms(3) obtain s' where "fstep b (Recv w) s = Some s'"
      by (cases "benchChan s") (auto simp: fstep_def recv_def)
    then show ?thesis by (intro exI[of _ "Recv w"]) (simp add: ok_event_def is_tick_def)
  next
    case (WCall i)
    with w(1) assms(3) have "fstep b (Complete w 200 0) s = Some (complete b w i 200 0 s)"
      by (simp add: fstep_def)
    then show ?thesis by (intro exI[of _ "Complete w 200 0"]) (simp add: ok_event_def is_tick_def)
  next
    case WExit
    with w(2) show ?thesis by simp
  qed
  show ?thesis
  proof (cases "phase s")
    case Running
    show ?thesis
    proof (cases "int (length (benchChan s)) < b_concurrency b")
      case True
      with Running assms(3) have "fstep b Send s = Some (send b s)" by (simp add: fstep_def)
      then show ?thesis by (intro exI[of _ Send]) (simp add: ok_event_def is_tick_def)
    next
      case False
      with c have ne: "benchChan s \<noteq> []" by auto
      with pool have "WExit \<notin> set (workers s)" by (auto simp: pool_ok_def)
      with len(1) have "workers s ! 0 \<noteq> WExit" by (metis nth_mem)
      with worker[of 0] len(1) ne show ?thesis by simp
    qed
  next
    case Closing
    with assms(3) have "fstep b Close s = Some (s\<lparr>closed := True, phase := Draining\<rparr>)"
      by (simp add: fstep_def)
    then show ?thesis by (intro exI[of _ Close]) (simp add: ok_event_def is_tick_def)
  next
    case Draining
    with pos have cl: "closed s" by (simp add: position_ok_def)
    show ?thesis
    proof (cases "\<forall>w \<in> set (workers s). w = WExit")
      case True
      let ?sts = "replicate (length (cleanup_containers b)) (200::nat)"
      from True Draining assms(3) have "fstep b (Finish 0 ?sts) s = Some (finish b 0 ?sts s)"
        by (simp add: fstep_def)
      then show ?thesis by (intro exI[of _ "Finish 0 ?sts"]) (simp add: ok_event_def is_tick_def)
    next
      case False
      then obtain w where "w < length (workers s)" "workers s ! w \<noteq> WExit"
        by (auto simp: in_set_conv_nth)
      with worker[of w] cl show ?thesis by simp
    qed
  next
    case Reported
    with assms(4) show ?thesis by simp
  qed
qed

lemma can_finish:
  assumes "wf_bench b" "finv b s" "exited s = None"
  shows "\<exists>es s'. (\<forall>e \<in> set es. ok_event e) \<and> run_events (fstep b) es s = Some s'
           \<and> phase s' = Reported \<and> exited s' = None"
  using assms(2,3)
proof (induction "fmu b s" arbitrary: s rule: less_induct)
  case less
  show ?case
  proof (cases "phase s = Reported")
    case True
    with less.prems(2) show ?thesis by (intro exI[of _ "[]"]) simp
  next
    case False
    from fstep_progress[OF assms(1) less.prems False] obtain e s1
      where e: "ok_event e" "\<not> is_tick e" "fstep b e s = Some s1" by blast
    from fstep_measure[OF e(3) assms(1) less.prems(1) e(1)] e(2) have "fmu b s1 < fmu b s" by simp
    moreover have "finv b s1" using fstep_finv[OF e(3) assms(1) less.prems(1)] .
    moreover have "exited s1 = None" using fstep_ok_exited[OF e(3,1)] .
    ultimately obtain es s' where es: "\<forall>e \<in> set es. ok_event e"
      "run_events (fstep b) es s1 = Some s'" "phase s' = Reported" "exited s' = None"
      using less.hyps by blast
    with e show ?thesis by (intro exI[of _ "e # es"] exI[of _ s']) simp
  qed
qed

lemma run_ok_invariant:
  assumes "run_events (fstep b) es s0 = Some s" "\<forall>e \<in> set es. ok_event e" "wf_bench b"
    "finv b s0" "exited s0 = None"
  shows "finv b s \<and> exited s = None
     \<and> length (filter (\<lambda>e. \<not> is_tick e) es) + fmu b s \<le> fmu b s0"
  using assms(1,2,4,5)
proof (induction es arbitrary: s0)
  case Nil
  then show ?case by simp
next
  case (Cons e es)
  from Cons.prems(1) obtain s1 where s1: "fstep b e s0 = Some s1"
    "run_events (fstep b) es s1 = Some s"
    by (auto split: option.splits)
  from Cons.prems(2) have ok: "ok_event e" "\<forall>e \<in> set es. ok_event e" by simp_all
  have inv1: "finv b s1" using fstep_finv[OF s1(1) assms(3) Cons.prems(3)] .
  have ex1: "exited s1 = None" using fstep_ok_exited[OF s1(1) ok(1)] .
  note IH = Cons.IH[OF s1(2) ok(2) inv1 ex1]
  from fstep_measure[OF s1(1) assms(3) Cons.prems(3) ok(1)]
  have "(if is_tick e then 0 else 1) + fmu b s1 \<le> fmu b s0" by (simp split: if_splits)
  with IH show ?case by (simp split: if_splits)
qed

lemma map_decr_upto: "map (\<lambda>v. v - 1) [i..j] = [i - 1..j - 1]"
proof (induction i j rule: upto.induct)
  case (1 i j)
  then show ?case by (simp add: upto.simps[of i j] upto.simps[of "i - 1" "j - 1"])
qed

lemma map_decr_all_tasks:
  "map (\<lambda>v. v - 1) (all_tasks b) = concat (replicate (nat (b_iterations b)) [0..b_count b - 1])"
  by (simp add: all_tasks_def map_concat map_decr_upto)

lemma length_all_tasks:
  assumes "0 \<le> b_iterations b" "0 \<le> b_count b"
  shows "int (length (all_tasks b)) = b_count b * b_iterations b"
proof -
  have "length (concat (replicate n xs)) = n * length xs" for n and xs :: "int list"
    by (induction n) simp_all
  then have "length (all_tasks b) = nat (b_iterations b) * nat (b_count b)"
    by (simp add: all_tasks_def)
  then show ?thesis using assms by (simp add: nat_mult_distrib)
qed

lemma fmu_finit:
  assumes "wf_bench b"
  shows "int (fmu b (finit b t0)) = 3 * (b_count b * b_iterations b) + b_concurrency b + 3"
proof -
  have "sum_list (map wmu (replicate n WRecv)) = n" for n
    by (induction n) (simp_all add: wmu_def)
  moreover have "0 \<le> b_iterations b * b_count b" using assms by (simp add: wf_bench_def)
  ultimately show ?thesis using assms
    by (simp add: fmu_def finit_def enter_iteration_def wf_bench_def todo_def phase_rank_def
        mult.commute)
qed

lemma reported_indices:
  assumes "wf_bench b" "finv b s" "phase s = Reported" "exited s = None"
  shows "mset (map rq_index (requests s)) = mset (map (\<lambda>v. v - 1) (all_tasks b))"
proof -
  have "mset (map rq_index (requests s)) = image_mset (\<lambda>v. v - 1) (issued s)"
    by (simp add: issued_def multiset.map_comp comp_def)
  then show ?thesis using reported_issued[OF assms] by simp
qed

text \<open>
  C3. In a fixed-count driver run with configured count, concurrency and (for bench-get
  and bench-head) iterations of at least one, in which every response is 2xx, the process
  never exits early; from every state the run reaches it can go on to its report, and the
  events of the run other than ticks of the progress ticker are at most
  \<open>3 \<sqdot> count \<sqdot> iterations + concurrency + 3\<close>, so the run terminates; at the report
  the requests performed are the indices \<open>0\<close> to \<open>count - 1\<close>, each once per iteration:
  \<open>count \<sqdot> iterations\<close> requests, none duplicated and none skipped.
\<close>

theorem fixed_count_exactly_once:
  assumes "1 \<le> f_count fl" and "1 \<le> f_concurrency fl"
    and "has_iterations k \<longrightarrow> 1 \<le> f_iterations fl"
    and "n = (if has_iterations k then f_iterations fl else 1)"
    and "b = bench_locals k fl"
    and "\<forall>e \<in> set es. ok_event e" and "frun b t0 es = Some s"
  shows "exited s = None
    \<and> (\<exists>es' s'. (\<forall>e \<in> set es'. ok_event e) \<and> run_events (fstep b) es' s = Some s'
          \<and> phase s' = Reported \<and> exited s' = None)
    \<and> int (length (filter (\<lambda>e. \<not> is_tick e) es)) \<le> 3 * (f_count fl * n) + f_concurrency fl + 3
    \<and> (phase s = Reported \<longrightarrow>
          mset (map rq_index (requests s)) = mset (concat (replicate (nat n) [0..f_count fl - 1]))
          \<and> int (length (requests s)) = f_count fl * n
          \<and> (n = 1 \<longrightarrow> distinct (map rq_index (requests s))))"
proof -
  have wf: "wf_bench b" using assms(5) wf_bench_locals by simp
  have flds: "b_count b = f_count fl" "b_iterations b = n" "b_concurrency b = f_concurrency fl"
    using assms(1-5) by (auto simp: bench_locals_def Let_def)
  have init: "finv b (finit b t0)" "exited (finit b t0) = None"
    using finit_finv[OF wf] by (simp_all add: finit_def enter_iteration_def)
  from run_ok_invariant[OF assms(7)[unfolded frun_def] assms(6) wf init]
  have inv: "finv b s" and ex: "exited s = None"
    and steps: "length (filter (\<lambda>e. \<not> is_tick e) es) + fmu b s \<le> fmu b (finit b t0)"
    by simp_all
  have 2: "\<exists>es' s'. (\<forall>e \<in> set es'. ok_event e) \<and> run_events (fstep b) es' s = Some s'
          \<and> phase s' = Reported \<and> exited s' = None"
    using can_finish[OF wf inv ex] .
  from steps have "int (length (filter (\<lambda>e. \<not> is_tick e) es)) \<le> int (fmu b (finit b t0))"
    by linarith
  then have 3: "int (length (filter (\<lambda>e. \<not> is_tick e) es)) \<le> 3 * (f_count fl * n) + f_concurrency fl + 3"
    using fmu_finit[OF wf, of t0] flds by simp
  have 4: "mset (map rq_index (requests s)) = mset (concat (replicate (nat n) [0..f_count fl - 1]))
          \<and> int (length (requests s)) = f_count fl * n
          \<and> (n = 1 \<longrightarrow> distinct (map rq_index (requests s)))" if rep: "phase s = Reported"
  proof -
    have m: "mset (map rq_index (requests s)) = mset (concat (replicate (nat n) [0..f_count fl - 1]))"
      using reported_indices[OF wf inv rep ex] map_decr_all_tasks[of b] flds by simp
    have "length (requests s) = size (issued s)" by (simp add: issued_def)
    also have "\<dots> = length (all_tasks b)" using reported_issued[OF wf inv rep ex] by simp
    finally have l: "int (length (requests s)) = f_count fl * n"
      using length_all_tasks[of b] wf flds by (simp add: wf_bench_def)
    have d: "distinct (map rq_index (requests s))" if "n = 1"
    proof -
      from m that have "mset (map rq_index (requests s)) = mset [0..f_count fl - 1]" by simp
      then show ?thesis using mset_eq_imp_distinct_iff distinct_upto by blast
    qed
    show ?thesis using m l d by blast
  qed
  show ?thesis using ex 2 3 4 by blast
qed

lemma get_example:
  "\<exists>s. frun (bench_locals GET fl_get) 0 es_get = Some s \<and> phase s = Reported
     \<and> map rq_index (requests s) = [1, 0, 0, 1]"
  by (simp add: fl_get_def es_get_def frun_def bench_locals_def has_iterations_def finit_def
      enter_iteration_def fstep_def send_def advance_def recv_def after_recv_def complete_def
      body_size_def task_names_def Let_def tick_def soFar_def finish_def request_of_def
      diag_of_def cleanup_containers_def cleanup_diags_def total_count_def numeral_2_eq_2)

theorem fixed_count_exactly_once_witness:
  "1 \<le> f_count fl_get \<and> 1 \<le> f_concurrency fl_get \<and> 1 \<le> f_iterations fl_get
   \<and> (\<exists>s. frun (bench_locals GET fl_get) 0 es_get = Some s \<and> phase s = Reported
         \<and> exited s = None
         \<and> map rq_index (requests s) = [1, 0, 0, 1]
         \<and> mset (map rq_index (requests s)) = mset (concat (replicate 2 [0..2 - 1]))
         \<and> int (length (requests s)) = 2 * 2)"
proof -
  from get_example obtain s where ex:
    "frun (bench_locals GET fl_get) 0 es_get = Some s \<and> phase s = Reported
     \<and> map rq_index (requests s) = [1, 0, 0, 1]" by (rule exE)
  have h: "1 \<le> f_count fl_get" "1 \<le> f_concurrency fl_get"
    "has_iterations GET \<longrightarrow> 1 \<le> f_iterations fl_get"
    "2 = (if has_iterations GET then f_iterations fl_get else 1)"
    by (simp_all add: fl_get_def has_iterations_def)
  have ok: "\<forall>e \<in> set es_get. ok_event e" by (simp add: es_get_def ok_event_def)
  have v: "f_count fl_get = 2" "f_iterations fl_get = 2" by (simp_all add: fl_get_def)
  have i: "1 \<le> f_iterations fl_get" by (simp add: fl_get_def)
  note th = fixed_count_exactly_once[OF h refl ok ex[THEN conjunct1], unfolded v]
  note ex1 = ex[THEN conjunct1] and ex2 = ex[THEN conjunct2, THEN conjunct1]
    and ex3 = ex[THEN conjunct2, THEN conjunct2]
  have f1: "exited s = None" using th by (rule conjunct1)
  have f: "mset (map rq_index (requests s)) = mset (concat (replicate (nat 2) [0..2 - 1]))
          \<and> int (length (requests s)) = 2 * 2
          \<and> (2 = (1::int) \<longrightarrow> distinct (map rq_index (requests s)))"
    using th[THEN conjunct2, THEN conjunct2, THEN conjunct2] ex2 by (rule mp)
  have f2: "mset (map rq_index (requests s)) = mset (concat (replicate 2 [0..2 - 1]))"
    using f[THEN conjunct1] by simp
  have f3: "int (length (requests s)) = 2 * 2" using f by (elim conjE)
  show ?thesis
    by (intro conjI exI[of _ s]) (fact h(1) h(2) i ex1 ex2 ex3 f1 f2 f3)+
qed

subsection \<open>bench-mixed: the steps by cases and the gate invariant\<close>

lemma mstep_enabled:
  assumes "mstep c e s = Some s'"
  shows "m_exited s = None \<and> \<not> m_reported s"
  using assms by (auto simp: mstep_def split: if_splits)

lemma mstep_cases [consumes 1, case_names TimerFire WorkerRecv WorkerQuit WorkerComplete
    ReporterTick ReporterQuit ProducerLoad ProducerLoadHi ProducerPoll ProducerSend
    ProducerQuit MainFinish]:
  assumes "mstep c e s = Some s'"
  obtains
    (TimerFire) "e = TimerFire" "\<not> doneChan s" "s' = s\<lparr>doneChan := True\<rparr>"
  | (WorkerRecv) k w v rest where "e = WorkerRecv k w" "w < length (pool s k)"
      "pool s k ! w = WRecv" "chans s k = v # rest"
      "s' = set_worker k w (WCall v) (s\<lparr>chans := (chans s)(k := rest)\<rparr>)"
  | (WorkerQuit) k w where "e = WorkerQuit k w" "w < length (pool s k)"
      "pool s k ! w = WRecv" "doneChan s" "s' = set_worker k w WExit s"
  | (WorkerComplete) k w i st where "e = WorkerComplete k w st" "w < length (pool s k)"
      "pool s k ! w = WCall i" "s' = mcomplete c k w i st s"
  | (ReporterTick) now where "e = ReporterTick now" "\<not> reporter_exited s" "s' = report c now s"
  | (ReporterQuit) "e = ReporterQuit" "\<not> reporter_exited s" "doneChan s"
      "s' = s\<lparr>reporter_exited := True\<rparr>"
  | (ProducerLoad) k where "e = ProducerLoad k" "pr_pc (producers s k) = PTop"
      "s' = set_producer k (producer_load c k s (producers s k)) s"
  | (ProducerLoadHi) k where "e = ProducerLoadHi k" "pr_pc (producers s k) = PMid"
      "s' = set_producer k (producer_load_hi c s (producers s k)) s"
  | (ProducerPoll) k where "e = ProducerPoll k" "pr_pc (producers s k) = PPoll"
      "s' = set_producer k (producer_poll s (producers s k)) s"
  | (ProducerSend) k where "e = ProducerSend k" "pr_pc (producers s k) = PSel"
      "int (length (chans s k)) < m_concurrency c" "s' = producer_send k s"
  | (ProducerQuit) k where "e = ProducerQuit k" "pr_pc (producers s k) = PSel" "doneChan s"
      "s' = set_producer k ((producers s k)\<lparr>pr_pc := PExit\<rparr>) s"
  | (MainFinish) stop where "e = MainFinish stop" "all_exited s" "s' = mfinish c stop s"
proof (cases e)
  case TimerFire
  with assms that(1) show ?thesis by (auto simp: mstep_def split: if_splits)
next
  case (WorkerRecv k w)
  with assms that(2)[of k w] show ?thesis
    by (auto simp: mstep_def split: if_splits list.splits)
next
  case (WorkerQuit k w)
  with assms that(3)[of k w] show ?thesis by (auto simp: mstep_def split: if_splits)
next
  case (WorkerComplete k w st)
  with assms that(4)[of k w st] show ?thesis
    by (auto simp: mstep_def split: if_splits wstate.splits)
next
  case (ReporterTick now)
  with assms that(5)[of now] show ?thesis by (auto simp: mstep_def split: if_splits)
next
  case ReporterQuit
  with assms that(6) show ?thesis by (auto simp: mstep_def split: if_splits)
next
  case (ProducerLoad k)
  with assms that(7)[of k] show ?thesis by (auto simp: mstep_def split: if_splits)
next
  case (ProducerLoadHi k)
  with assms that(8)[of k] show ?thesis by (auto simp: mstep_def split: if_splits)
next
  case (ProducerPoll k)
  with assms that(9)[of k] show ?thesis by (auto simp: mstep_def split: if_splits)
next
  case (ProducerSend k)
  with assms that(10)[of k] show ?thesis by (auto simp: mstep_def split: if_splits)
next
  case (ProducerQuit k)
  with assms that(11)[of k] show ?thesis by (auto simp: mstep_def split: if_splits)
next
  case (MainFinish stop)
  with assms that(12)[of stop] show ?thesis by (auto simp: mstep_def split: if_splits)
qed

lemma set_worker_fields [simp]:
  "doneChan (set_worker k w x s) = doneChan s" "counters (set_worker k w x s) = counters s"
  "chans (set_worker k w x s) = chans s" "producers (set_worker k w x s) = producers s"
  "pool (set_worker k w x s) = (pool s)(k := (pool s k)[w := x])"
  "reporter_exited (set_worker k w x s) = reporter_exited s"
  "m_requests (set_worker k w x s) = m_requests s" "m_stderr (set_worker k w x s) = m_stderr s"
  "m_exited (set_worker k w x s) = m_exited s" "m_reported (set_worker k w x s) = m_reported s"
  "m_csvotw (set_worker k w x s) = m_csvotw s" "lasts (set_worker k w x s) = lasts s"
  "dispatched (set_worker k w x s) = dispatched s"
  by (simp_all add: set_worker_def)

lemma set_producer_fields [simp]:
  "doneChan (set_producer k p s) = doneChan s" "counters (set_producer k p s) = counters s"
  "chans (set_producer k p s) = chans s" "producers (set_producer k p s) = (producers s)(k := p)"
  "pool (set_producer k p s) = pool s"
  "reporter_exited (set_producer k p s) = reporter_exited s"
  "m_requests (set_producer k p s) = m_requests s" "m_stderr (set_producer k p s) = m_stderr s"
  "m_exited (set_producer k p s) = m_exited s" "m_reported (set_producer k p s) = m_reported s"
  "m_csvotw (set_producer k p s) = m_csvotw s" "lasts (set_producer k p s) = lasts s"
  "dispatched (set_producer k p s) = dispatched s"
  by (simp_all add: set_producer_def)

lemma producer_send_fields [simp]:
  "doneChan (producer_send k s) = doneChan s" "counters (producer_send k s) = counters s"
  "chans (producer_send k s) = (chans s)(k := chans s k @ [pr_i (producers s k)])"
  "producers (producer_send k s) =
     (producers s)(k := (producers s k)\<lparr>pr_i := pr_i (producers s k) + 1, pr_pc := loop_head k\<rparr>)"
  "pool (producer_send k s) = pool s"
  "reporter_exited (producer_send k s) = reporter_exited s"
  "m_requests (producer_send k s) = m_requests s" "m_stderr (producer_send k s) = m_stderr s"
  "m_exited (producer_send k s) = m_exited s" "m_reported (producer_send k s) = m_reported s"
  "m_csvotw (producer_send k s) = m_csvotw s" "lasts (producer_send k s) = lasts s"
  "dispatched (producer_send k s) = (dispatched s)(k := dispatched s k @ [pr_i (producers s k)])"
  by (simp_all add: producer_send_def Let_def)

lemma report_fields [simp]:
  "doneChan (report c now s) = doneChan s" "counters (report c now s) = counters s"
  "chans (report c now s) = chans s" "producers (report c now s) = producers s"
  "pool (report c now s) = pool s" "reporter_exited (report c now s) = reporter_exited s"
  "m_requests (report c now s) = m_requests s" "m_stderr (report c now s) = m_stderr s"
  "m_exited (report c now s) = m_exited s" "m_reported (report c now s) = m_reported s"
  "dispatched (report c now s) = dispatched s"
  by (simp_all add: report_def)

lemma mfinish_fields [simp]:
  "doneChan (mfinish c now s) = doneChan s" "counters (mfinish c now s) = counters s"
  "chans (mfinish c now s) = chans s" "producers (mfinish c now s) = producers s"
  "pool (mfinish c now s) = pool s" "reporter_exited (mfinish c now s) = reporter_exited s"
  "m_requests (mfinish c now s) = m_requests s" "m_stderr (mfinish c now s) = m_stderr s"
  "m_exited (mfinish c now s) = m_exited s" "m_reported (mfinish c now s) = True"
  "dispatched (mfinish c now s) = dispatched s"
  by (simp_all add: mfinish_def)

lemma mcomplete_fields [simp]:
  "doneChan (mcomplete c k w i st s) = doneChan s"
  "counters (mcomplete c k w i st s) = (counters s)(k := counters s k + 1)"
  "chans (mcomplete c k w i st s) = chans s" "producers (mcomplete c k w i st s) = producers s"
  "reporter_exited (mcomplete c k w i st s) = reporter_exited s"
  "m_requests (mcomplete c k w i st s) = m_requests s @ [(k, i)]"
  "m_reported (mcomplete c k w i st s) = m_reported s"
  "m_csvotw (mcomplete c k w i st s) = m_csvotw s" "lasts (mcomplete c k w i st s) = lasts s"
  "dispatched (mcomplete c k w i st s) = dispatched s"
  by (simp_all add: mcomplete_def Let_def)

lemma mcomplete_outcome:
  "m_exited (mcomplete c k w i st s) =
     (if st div 100 \<noteq> 2 \<and> \<not> m_continueOnError c then Some 1 else m_exited s)"
  "m_stderr (mcomplete c k w i st s) =
     (if st div 100 \<noteq> 2 then m_stderr s @ [mdiag c k i st] else m_stderr s)"
  "pool (mcomplete c k w i st s) =
     (if st div 100 \<noteq> 2 \<and> \<not> m_continueOnError c then pool s
      else (pool s)(k := (pool s k)[w := WRecv]))"
  by (simp_all add: mcomplete_def Let_def)

lemma read_gate_cong:
  assumes "producers s' k = producers s k" "counters s' = counters s"
  shows "read_gate c s' k = read_gate c s k"
  by (simp add: read_gate_def assms)

lemma mstep_minv:
  assumes "mstep c e s = Some s'" "1 \<le> m_concurrency c" "minv c s"
  shows "minv c s'"
  using assms(1)
proof (cases rule: mstep_cases)
  case (WorkerComplete k w i st)
  with assms(3) show ?thesis
    by (auto simp: minv_def delete_gate_def read_gate_def)
next
  case (ProducerLoad k)
  with assms(2,3) show ?thesis
    by (auto simp: minv_def delete_gate_def read_gate_def producer_load_def Let_def)
next
  case (ProducerLoadHi k)
  with assms(2,3) show ?thesis
    by (auto simp: minv_def delete_gate_def read_gate_def producer_load_hi_def Let_def)
next
  case (ProducerPoll k)
  with assms(3) show ?thesis
    by (auto simp: minv_def delete_gate_def read_gate_def producer_poll_def)
next
  case (ProducerSend k)
  with assms(3) show ?thesis
    by (auto simp: minv_def delete_gate_def read_gate_def loop_head_def)
next
  case (ProducerQuit k)
  with assms(3) show ?thesis
    by (auto simp: minv_def delete_gate_def read_gate_def)
qed (use assms(3) in \<open>auto simp: minv_def delete_gate_def read_gate_def\<close>)

lemma minit_minv: "minv c (minit c t0)"
  by (simp add: minv_def minit_def delete_gate_def read_gate_def loop_head_def)

lemma concurrency_locals: "1 \<le> m_concurrency (mixed_locals fl)"
  by (simp add: mixed_locals_def)

lemma mrun_minv:
  assumes "1 \<le> m_concurrency c" "mrun c t0 es = Some s"
  shows "minv c s"
  using assms(2) unfolding mrun_def
  by (rule run_events_invariant) (use assms(1) minit_minv mstep_minv in auto)

subsection \<open>bench-mixed: creating objects, and the DELETE gate\<close>

lemma put_cycle_run:
  assumes "put_ready c s"
  shows "run_events (mstep c) put_cycle s = Some (after_put s)"
proof -
  have a: "mstep c (ProducerSend PUT) s = Some (producer_send PUT s)"
    using assms by (simp add: mstep_def put_ready_def)
  let ?s1 = "producer_send PUT s"
  let ?s2 = "set_worker PUT 0 (WCall (pr_i (producers s PUT))) (?s1\<lparr>chans := (chans ?s1)(PUT := [])\<rparr>)"
  have b: "mstep c (WorkerRecv PUT 0) ?s1 = Some ?s2"
    using assms by (simp add: mstep_def put_ready_def)
  have c: "mstep c (WorkerComplete PUT 0 201) ?s2
      = Some (mcomplete c PUT 0 (pr_i (producers s PUT)) 201 ?s2)"
    using assms by (simp add: mstep_def put_ready_def)
  have d: "mcomplete c PUT 0 (pr_i (producers s PUT)) 201 ?s2 = after_put s"
    using assms
    by (simp add: mcomplete_def set_worker_def producer_send_def after_put_def put_ready_def
        loop_head_def Let_def fun_upd_idem)
  show ?thesis unfolding put_cycle_def
    by (simp only: run_events.simps a b c d option.case)
qed

lemma put_ready_after_put: "put_ready c s \<Longrightarrow> put_ready c (after_put s)"
  by (simp add: put_ready_def after_put_def)

lemma put_cycles_run:
  assumes "put_ready c s"
  shows "run_events (mstep c) (concat (replicate n put_cycle)) s = Some (after_puts n s)"
  using assms
proof (induction n arbitrary: s)
  case 0
  then show ?case by simp
next
  case (Suc n)
  from Suc.IH[OF put_ready_after_put[OF Suc.prems]] put_cycle_run[OF Suc.prems]
  show ?case by (simp add: run_events_append)
qed

lemma after_puts_counters:
  "counters (after_puts n s) = (counters s)(PUT := counters s PUT + int n)"
  by (induction n arbitrary: s) (simp_all add: after_put_def add.assoc)

lemma after_puts_producers:
  "k \<noteq> PUT \<Longrightarrow> producers (after_puts n s) k = producers s k"
  by (induction n arbitrary: s) (simp_all add: after_put_def)

lemma after_puts_fields:
  "chans (after_puts n s) = chans s" "pool (after_puts n s) = pool s"
  "doneChan (after_puts n s) = doneChan s" "m_exited (after_puts n s) = m_exited s"
  "m_reported (after_puts n s) = m_reported s"
  "reporter_exited (after_puts n s) = reporter_exited s"
proof -
  have "chans (after_puts n s) = chans s \<and> pool (after_puts n s) = pool s
    \<and> doneChan (after_puts n s) = doneChan s \<and> m_exited (after_puts n s) = m_exited s
    \<and> m_reported (after_puts n s) = m_reported s
    \<and> reporter_exited (after_puts n s) = reporter_exited s"
    by (induction n arbitrary: s) (simp_all add: after_put_def)
  then show "chans (after_puts n s) = chans s" "pool (after_puts n s) = pool s"
  "doneChan (after_puts n s) = doneChan s" "m_exited (after_puts n s) = m_exited s"
  "m_reported (after_puts n s) = m_reported s"
  "reporter_exited (after_puts n s) = reporter_exited s" by simp_all
qed

lemma put_ready_minit: "put_ready (mixed_locals fl_mix) (minit (mixed_locals fl_mix) t0)"
  by (simp add: put_ready_def minit_def mixed_locals_def fl_mix_def loop_head_def)

lemma mrun_puts:
  "mrun (mixed_locals fl_mix) t0 (concat (replicate n put_cycle) @ es) =
     run_events (mstep (mixed_locals fl_mix)) es (after_puts n (minit (mixed_locals fl_mix) t0))"
  by (simp add: mrun_def run_events_append put_cycles_run[OF put_ready_minit])

lemma stocked_fields:
  "counters (after_puts n (minit c t0)) PUT = int n"
  "k \<noteq> PUT \<Longrightarrow> counters (after_puts n (minit c t0)) k = 0"
  "k \<noteq> PUT \<Longrightarrow> producers (after_puts n (minit c t0)) k = \<lparr>pr_pc = PTop, pr_i = 0, pr_lo = 0, pr_hi = 0\<rparr>"
  "chans (after_puts n (minit c t0)) k = []"
  "pool (after_puts n (minit c t0)) k = replicate (nat (m_concurrency c)) WRecv"
  "doneChan (after_puts n (minit c t0)) = False"
  "m_exited (after_puts n (minit c t0)) = None"
  "m_reported (after_puts n (minit c t0)) = False"
  by (simp_all add: after_puts_counters after_puts_producers after_puts_fields minit_def
      loop_head_def)

lemma dispatch_afterD:
  assumes "dispatch_after c t0 es k = Some (i, d, p)"
  obtains s s' where "mrun c t0 es = Some s" "mstep c (ProducerSend k) s = Some s'"
    "i = pr_i (producers s k)" "d = counters s DELETE" "p = counters s PUT"
proof -
  from assms obtain s s' where s: "mrun c t0 es = Some s" "mstep c (ProducerSend k) s = Some s'"
    "i = last (chans s' k)" "d = counters s DELETE" "p = counters s PUT"
    by (auto simp: dispatch_after_def split: option.splits)
  from s(2) have "s' = producer_send k s" by (auto simp: mstep_def split: if_splits)
  with s(3) have "i = pr_i (producers s k)" by simp
  with s that show ?thesis by blast
qed

text \<open>
  C1. Every index sent on the DELETE task channel is, when it is sent, at most the
  completed-PUT counter minus 10000, and so strictly below the counter. The DELETE
  producer reaches its sending \<^verbatim>\<open>select\<close> only when its cursor is at most the counter
  minus 10000; otherwise it takes the polling branch, which, unless \<^verbatim>\<open>doneChan\<close> is
  closed, sleeps and returns to the head of the loop, and it sends nowhere else.
\<close>

theorem delete_dispatch_gate:
  assumes "c = mixed_locals fl" and "dispatch_after c t0 es DELETE = Some (i, d, p)"
  shows "i \<le> p - 10000 \<and> i < p
    \<and> (pr_i q > counters s1 PUT - 10000 \<longrightarrow> pr_pc (producer_load c DELETE s1 q) = PPoll)
    \<and> (pr_i q \<le> counters s1 PUT - 10000 \<longrightarrow> pr_pc (producer_load c DELETE s1 q) = PSel)
    \<and> (\<not> doneChan s1 \<longrightarrow> pr_pc (producer_poll s1 q) = PTop)
    \<and> (pr_pc (producers s1 DELETE) \<noteq> PSel \<longrightarrow> mstep c (ProducerSend DELETE) s1 = None)"
proof -
  from assms(2) obtain s s' where s: "mrun c t0 es = Some s"
    "mstep c (ProducerSend DELETE) s = Some s'"
    "i = pr_i (producers s DELETE)" "p = counters s PUT"
    by (rule dispatch_afterD)
  from s(2) have sel: "pr_pc (producers s DELETE) = PSel"
    by (auto simp: mstep_def split: if_splits)
  have "minv c s" using mrun_minv[OF _ s(1)] assms(1) concurrency_locals by simp
  with sel s(3,4) have "i + 10000 \<le> p" by (simp add: minv_def delete_gate_def)
  then show ?thesis
    by (auto simp: producer_load_def producer_poll_def mstep_def Let_def)
qed

lemma stocked_delete_dispatch:
  "dispatch_after (mixed_locals fl_mix) 0
     (concat (replicate 10000 put_cycle) @ [ProducerLoad DELETE]) DELETE = Some (0, 0, 10000)"
  unfolding dispatch_after_def mrun_puts
  by (simp add: mstep_def stocked_fields producer_load_def mixed_locals_def fl_mix_def Let_def
      loop_head_def)

theorem delete_dispatch_gate_witness:
  "dispatch_after (mixed_locals fl_mix) 0
     (concat (replicate 10000 put_cycle) @ [ProducerLoad DELETE]) DELETE = Some (0, 0, 10000)
   \<and> (0::int) \<le> 10000 - 10000 \<and> (0::int) < 10000"
  using delete_dispatch_gate[OF refl stocked_delete_dispatch] stocked_delete_dispatch
  by simp

subsection \<open>bench-mixed: the window of the GET, HEAD and POST producers\<close>

lemma race_dispatch:
  "dispatch_after (mixed_locals fl_mix) 0 es_race GET = Some (2, 3, 10002)"
  unfolding dispatch_after_def es_race_def mrun_puts delete_round_def
  by (simp add: mstep_def stocked_fields producer_load_def producer_load_hi_def mcomplete_outcome
      mixed_locals_def fl_mix_def Let_def loop_head_def)

text \<open>
  The claim C2 as stated fails: with one worker per pool and 10002 objects created, the GET
  producer computes its window, then three deletions complete before its send goes
  through, and index 2 is dispatched while \<^verbatim>\<open>deletes\<close> is 3: neither
  \<open>deletes + 2 \<sqdot> concurrency \<le> i\<close> nor \<open>deletes \<le> i\<close> holds at dispatch time.
\<close>

theorem read_dispatch_counterexample:
  "dispatch_after (mixed_locals fl_mix) 0 es_race GET = Some (2, 3, 10002)
   \<and> \<not> (3 + 2 * m_concurrency (mixed_locals fl_mix) \<le> (2::int)) \<and> \<not> ((3::int) \<le> 2)"
  using race_dispatch by (simp add: mixed_locals_def fl_mix_def)

text \<open>
  C2, amended. Every index \<open>i\<close> sent on the GET, HEAD or POST task channel satisfies, when
  it is sent, \<open>lo \<le> i \<le> puts - 2 \<sqdot> concurrency\<close> (so \<open>i < puts\<close>), where \<open>lo\<close> is the
  low bound the producer computed in this round of its loop from the value of
  \<^verbatim>\<open>deletes\<close> it read then: \<open>lo\<close> is at least \<open>2 \<sqdot> concurrency\<close> and at most the current
  \<open>deletes + 2 \<sqdot> concurrency\<close>. The first load sets \<open>lo\<close> to \<open>deletes + 2 \<sqdot> concurrency\<close>
  and raises the cursor to it; when the window is empty or inverted at the second load
  the producer sets its cursor to the low bound and polls instead of sending.
\<close>

theorem read_dispatch_window:
  assumes "c = mixed_locals fl" and "k = GET \<or> k = HEAD \<or> k = POST"
    and "mrun c t0 es = Some s" and "mstep c (ProducerSend k) s = Some s'"
  shows "last (chans s' k) = pr_i (producers s k)
    \<and> pr_lo (producers s k) \<le> pr_i (producers s k)
    \<and> 2 * m_concurrency c \<le> pr_lo (producers s k)
    \<and> pr_lo (producers s k) \<le> counters s DELETE + 2 * m_concurrency c
    \<and> pr_i (producers s k) \<le> counters s PUT - 2 * m_concurrency c
    \<and> pr_i (producers s k) < counters s PUT
    \<and> pr_lo (producer_load c k s1 q) = counters s1 DELETE + 2 * m_concurrency c
    \<and> pr_lo (producer_load c k s1 q) \<le> pr_i (producer_load c k s1 q)
    \<and> (pr_lo q \<le> pr_i q \<and> pr_lo q > counters s1 PUT - 2 * m_concurrency c \<longrightarrow>
          pr_pc (producer_load_hi c s1 q) = PPoll \<and> pr_i (producer_load_hi c s1 q) = pr_lo q)
    \<and> (pr_pc (producers s1 k) \<noteq> PSel \<longrightarrow> mstep c (ProducerSend k) s1 = None)"
proof -
  have c1: "1 \<le> m_concurrency c" using assms(1) concurrency_locals by simp
  from assms(4) have sel: "pr_pc (producers s k) = PSel" and s': "s' = producer_send k s"
    by (auto simp: mstep_def split: if_splits)
  have "minv c s" using mrun_minv[OF c1 assms(3)] .
  with assms(2) have "read_gate c s k" by (auto simp: minv_def)
  with sel c1 have gate: "pr_lo (producers s k) \<le> pr_i (producers s k)"
    "2 * m_concurrency c \<le> pr_lo (producers s k)"
    "pr_lo (producers s k) \<le> counters s DELETE + 2 * m_concurrency c"
    "pr_i (producers s k) \<le> counters s PUT - 2 * m_concurrency c"
    "pr_i (producers s k) < counters s PUT"
    by (auto simp: read_gate_def)
  have snd: "last (chans s' k) = pr_i (producers s k)" using s' by simp
  have ld: "pr_lo (producer_load c k s1 q) = counters s1 DELETE + 2 * m_concurrency c"
    "pr_lo (producer_load c k s1 q) \<le> pr_i (producer_load c k s1 q)"
    using assms(2) by (auto simp: producer_load_def Let_def)
  have hi: "pr_lo q \<le> pr_i q \<and> pr_lo q > counters s1 PUT - 2 * m_concurrency c \<longrightarrow>
          pr_pc (producer_load_hi c s1 q) = PPoll \<and> pr_i (producer_load_hi c s1 q) = pr_lo q"
    by (auto simp: producer_load_hi_def Let_def)
  have ns: "pr_pc (producers s1 k) \<noteq> PSel \<longrightarrow> mstep c (ProducerSend k) s1 = None"
    by (simp add: mstep_def)
  show ?thesis using gate snd ld hi ns by blast
qed

lemma read_example:
  "\<exists>s s'. mrun (mixed_locals fl_mix) 0 es_read = Some s
     \<and> mstep (mixed_locals fl_mix) (ProducerSend GET) s = Some s'
     \<and> pr_i (producers s GET) = 2 \<and> pr_lo (producers s GET) = 2
     \<and> counters s DELETE = 0 \<and> counters s PUT = 10"
  unfolding es_read_def mrun_puts
  by (simp add: mstep_def stocked_fields producer_load_def producer_load_hi_def
      mixed_locals_def fl_mix_def Let_def loop_head_def)

theorem read_dispatch_window_witness:
  "\<exists>s s'. mrun (mixed_locals fl_mix) 0 es_read = Some s
     \<and> mstep (mixed_locals fl_mix) (ProducerSend GET) s = Some s'
     \<and> pr_i (producers s GET) = 2 \<and> pr_lo (producers s GET) = 2
     \<and> counters s DELETE = 0 \<and> counters s PUT = 10
     \<and> last (chans s' GET) = 2
     \<and> (2::int) \<le> 10 - 2 * m_concurrency (mixed_locals fl_mix)"
proof -
  from read_example obtain s s' where ex:
    "mrun (mixed_locals fl_mix) 0 es_read = Some s
     \<and> mstep (mixed_locals fl_mix) (ProducerSend GET) s = Some s'
     \<and> pr_i (producers s GET) = 2 \<and> pr_lo (producers s GET) = 2
     \<and> counters s DELETE = 0 \<and> counters s PUT = 10" by (elim exE)
  then have r: "mrun (mixed_locals fl_mix) 0 es_read = Some s"
    "mstep (mixed_locals fl_mix) (ProducerSend GET) s = Some s'"
    and v: "pr_i (producers s GET) = 2" "counters s PUT = 10" by simp_all
  have k: "GET = GET \<or> GET = HEAD \<or> GET = POST" by simp
  note th = read_dispatch_window[OF refl k r]
  have 1: "last (chans s' GET) = 2" using th v by simp
  have 2: "(2::int) \<le> 10 - 2 * m_concurrency (mixed_locals fl_mix)" using th v by simp
  show ?thesis using ex 1 2 by (intro exI[of _ s] exI[of _ s']) simp
qed

subsection \<open>bench-mixed: shutdown\<close>

lemma kinds_all: "k \<in> set kinds"
  by (cases k) (simp_all add: kinds_def)

lemma sum_kinds_less:
  fixes f g :: "kind \<Rightarrow> nat"
  assumes "f k < g k" "\<And>j. j \<noteq> k \<Longrightarrow> f j = g j"
  shows "sum_list (map f kinds) < sum_list (map g kinds)"
proof -
  have "f j \<le> g j" for j using assms by (cases "j = k") auto
  then have *: "f DELETE \<le> g DELETE" "f GET \<le> g GET" "f HEAD \<le> g HEAD" "f POST \<le> g POST"
    "f PUT \<le> g PUT" by blast+
  from assms(1) * show ?thesis by (cases k) (simp_all add: kinds_def)
qed

lemma kmu_other:
  assumes "producers s' j = producers s j" "pool s' j = pool s j"
  shows "kmu s' j = kmu s j"
  by (simp add: kmu_def assms)

lemma kmu_same [simp]:
  "kmu (mfinish c t s) = kmu s" "kmu (s\<lparr>reporter_exited := x\<rparr>) = kmu s"
  by (rule ext, simp add: kmu_def)+

lemma wmu_worker_less:
  assumes "w < length ws" "wmu x < wmu (ws ! w)"
  shows "sum_list (map wmu (ws[w := x])) < sum_list (map wmu ws)"
  using sum_list_map_update[of w ws wmu x] assms by linarith

lemma mmu_worker:
  assumes "w < length (pool s k)" "wmu x < wmu (pool s k ! w)"
    "producers s' = producers s" "pool s' = (pool s)(k := (pool s k)[w := x])"
    "reporter_exited s' = reporter_exited s" "m_reported s' = m_reported s"
  shows "mmu s' < mmu s"
proof -
  have "kmu s' k < kmu s k" using wmu_worker_less[OF assms(1,2)] assms(3,4) by (simp add: kmu_def)
  moreover have "kmu s' j = kmu s j" if "j \<noteq> k" for j using that assms(3,4) by (simp add: kmu_def)
  ultimately have "sum_list (map (kmu s') kinds) < sum_list (map (kmu s) kinds)"
    by (rule sum_kinds_less)
  then show ?thesis using assms(5,6) by (simp add: mmu_def)
qed

lemma mmu_producer:
  assumes "pmu (pr_pc p) < pmu (pr_pc (producers s k))"
    "producers s' = (producers s)(k := p)" "pool s' = pool s"
    "reporter_exited s' = reporter_exited s" "m_reported s' = m_reported s"
  shows "mmu s' < mmu s"
proof -
  have "kmu s' k < kmu s k" using assms(1,2,3) by (simp add: kmu_def)
  moreover have "kmu s' j = kmu s j" if "j \<noteq> k" for j using that assms(2,3) by (simp add: kmu_def)
  ultimately have "sum_list (map (kmu s') kinds) < sum_list (map (kmu s) kinds)"
    by (rule sum_kinds_less)
  then show ?thesis using assms(4,5) by (simp add: mmu_def)
qed

lemma shutdown_progress:
  assumes "doneChan s" "m_exited s = None" "\<not> m_reported s"
  shows "\<exists>e s'. quiet_event e \<and> mstep c e s = Some s' \<and> mmu s' < mmu s
           \<and> doneChan s' \<and> m_exited s' = None"
proof -
  have worker: ?thesis if w: "w < length (pool s k)" "pool s k ! w \<noteq> WExit" for k w
  proof (cases "pool s k ! w")
    case WRecv
    let ?s' = "set_worker k w WExit s"
    have "mstep c (WorkerQuit k w) s = Some ?s'" using assms w WRecv by (simp add: mstep_def)
    moreover have "mmu ?s' < mmu s"
      by (rule mmu_worker[OF w(1), of WExit]) (simp_all add: WRecv wmu_def)
    ultimately show ?thesis using assms
      by (intro exI[of _ "WorkerQuit k w"] exI[of _ ?s']) (simp add: quiet_event_def)
  next
    case (WCall i)
    let ?s' = "mcomplete c k w i 200 s"
    have "mstep c (WorkerComplete k w 200) s = Some ?s'" using assms w WCall by (simp add: mstep_def)
    moreover have "mmu ?s' < mmu s"
      by (rule mmu_worker[OF w(1), of WRecv]) (simp_all add: WCall wmu_def mcomplete_outcome)
    ultimately show ?thesis using assms
      by (intro exI[of _ "WorkerComplete k w 200"] exI[of _ ?s'])
         (simp add: quiet_event_def mcomplete_outcome)
  next
    case WExit
    with w(2) show ?thesis by simp
  qed
  have producer: ?thesis if p: "pr_pc (producers s k) \<noteq> PExit" for k
  proof (cases "pr_pc (producers s k)")
    case PTop
    let ?p = "producer_load c k s (producers s k)"
    let ?s' = "set_producer k ?p s"
    have "mstep c (ProducerLoad k) s = Some ?s'" using assms PTop by (simp add: mstep_def)
    moreover have "pmu (pr_pc ?p) < pmu (pr_pc (producers s k))"
      by (simp add: PTop pmu_def producer_load_def Let_def)
    then have "mmu ?s' < mmu s" by (rule mmu_producer) simp_all
    ultimately show ?thesis using assms
      by (intro exI[of _ "ProducerLoad k"] exI[of _ ?s']) (simp add: quiet_event_def)
  next
    case PMid
    let ?p = "producer_load_hi c s (producers s k)"
    let ?s' = "set_producer k ?p s"
    have "mstep c (ProducerLoadHi k) s = Some ?s'" using assms PMid by (simp add: mstep_def)
    moreover have "pmu (pr_pc ?p) < pmu (pr_pc (producers s k))"
      by (simp add: PMid pmu_def producer_load_hi_def Let_def)
    then have "mmu ?s' < mmu s" by (rule mmu_producer) simp_all
    ultimately show ?thesis using assms
      by (intro exI[of _ "ProducerLoadHi k"] exI[of _ ?s']) (simp add: quiet_event_def)
  next
    case PPoll
    let ?p = "producer_poll s (producers s k)"
    let ?s' = "set_producer k ?p s"
    have "mstep c (ProducerPoll k) s = Some ?s'" using assms PPoll by (simp add: mstep_def)
    moreover have "pmu (pr_pc ?p) < pmu (pr_pc (producers s k))"
      using assms(1) by (simp add: PPoll pmu_def producer_poll_def)
    then have "mmu ?s' < mmu s" by (rule mmu_producer) simp_all
    ultimately show ?thesis using assms
      by (intro exI[of _ "ProducerPoll k"] exI[of _ ?s']) (simp add: quiet_event_def)
  next
    case PSel
    let ?p = "(producers s k)\<lparr>pr_pc := PExit\<rparr>"
    let ?s' = "set_producer k ?p s"
    have "mstep c (ProducerQuit k) s = Some ?s'" using assms PSel by (simp add: mstep_def)
    moreover have "pmu (pr_pc ?p) < pmu (pr_pc (producers s k))"
      by (simp add: PSel pmu_def)
    then have "mmu ?s' < mmu s" by (rule mmu_producer) simp_all
    ultimately show ?thesis using assms
      by (intro exI[of _ "ProducerQuit k"] exI[of _ ?s']) (simp add: quiet_event_def)
  next
    case PExit
    with p show ?thesis by simp
  qed
  show ?thesis
  proof (cases "all_exited s")
    case True
    let ?s' = "mfinish c 0 s"
    have "mstep c (MainFinish 0) s = Some ?s'" using assms True by (simp add: mstep_def)
    moreover have "mmu ?s' < mmu s" using assms(3) by (simp add: mmu_def)
    ultimately show ?thesis using assms
      by (intro exI[of _ "MainFinish 0"] exI[of _ ?s']) (simp add: quiet_event_def)
  next
    case False
    then consider k w where "w < length (pool s k)" "pool s k ! w \<noteq> WExit"
      | k where "pr_pc (producers s k) \<noteq> PExit" | "\<not> reporter_exited s"
      by (auto simp: all_exited_def list_all_iff in_set_conv_nth)
    then show ?thesis
    proof cases
      case 1
      then show ?thesis by (rule worker)
    next
      case 2
      then show ?thesis by (rule producer)
    next
      case 3
      let ?s' = "s\<lparr>reporter_exited := True\<rparr>"
      have "mstep c ReporterQuit s = Some ?s'" using assms 3 by (simp add: mstep_def)
      moreover have "mmu ?s' < mmu s" using 3 by (simp add: mmu_def)
      ultimately show ?thesis using assms
        by (intro exI[of _ ReporterQuit] exI[of _ ?s']) (simp add: quiet_event_def)
    qed
  qed
qed

lemma can_shut_down:
  assumes "doneChan s" "m_exited s = None"
  shows "\<exists>es s'. (\<forall>e \<in> set es. quiet_event e) \<and> run_events (mstep c) es s = Some s'
           \<and> m_reported s' \<and> m_exited s' = None"
  using assms
proof (induction "mmu s" arbitrary: s rule: less_induct)
  case less
  show ?case
  proof (cases "m_reported s")
    case True
    with less.prems show ?thesis by (intro exI[of _ "[]"]) simp
  next
    case False
    from shutdown_progress[OF less.prems False, of c] obtain e s1
      where e: "quiet_event e" "mstep c e s = Some s1" "mmu s1 < mmu s" "doneChan s1"
        "m_exited s1 = None" by blast
    from less.hyps[OF e(3,4,5)] obtain es s' where es: "\<forall>e \<in> set es. quiet_event e"
      "run_events (mstep c) es s1 = Some s'" "m_reported s'" "m_exited s' = None"
      by blast
    with e show ?thesis by (intro exI[of _ "e # es"] exI[of _ s']) simp
  qed
qed

lemma mstep_done:
  assumes "mstep c e s = Some s'" "doneChan s"
  shows "doneChan s'"
  using assms by (cases rule: mstep_cases) simp_all

lemma mstep_pexit:
  assumes "mstep c e s = Some s'" "pr_pc (producers s k) = PExit"
  shows "pr_pc (producers s' k) = PExit"
  using assms
  by (cases rule: mstep_cases)
     (auto simp: producer_load_def producer_load_hi_def producer_poll_def Let_def
        split: if_splits)

lemma timer_then_put:
  "map_option doneChan (mrun (mixed_locals fl_mix) 0 [TimerFire]) = Some True
   \<and> dispatch_after (mixed_locals fl_mix) 0 [TimerFire] PUT = Some (0, 0, 0)"
  by (simp add: dispatch_after_def mrun_def mstep_def minit_def mixed_locals_def fl_mix_def
      loop_head_def)

text \<open>
  The claim C4 as stated fails: the \<^verbatim>\<open>select\<close> of a producer has no priority between its
  cases, so once the timer has closed \<^verbatim>\<open>doneChan\<close> the PUT producer, whose channel has
  room, may still take its send case and dispatch index 0.
\<close>

theorem dispatch_after_done_counterexample:
  "map_option doneChan (mrun (mixed_locals fl_mix) 0 [TimerFire]) = Some True
   \<and> dispatch_after (mixed_locals fl_mix) 0 [TimerFire] PUT = Some (0, 0, 0)"
  by (rule timer_then_put)

text \<open>
  C4, amended. Once \<^verbatim>\<open>doneChan\<close> is closed it stays closed, and every goroutine has its
  way out enabled: a worker or producer at its \<^verbatim>\<open>select\<close> and the reporting goroutine can
  take the done case, and a producer in its polling branch returns without sending. An
  operation already handed to the StorageClient completes and is counted. A producer that
  has returned never sends again, and from every such state the run can reach its final
  report through events none of which is a dispatch. A producer at its \<^verbatim>\<open>select\<close> whose
  channel has room may nevertheless still send after \<^verbatim>\<open>doneChan\<close> is closed.
\<close>

theorem shutdown_after_done:
  assumes "doneChan s" and "m_exited s = None"
  shows "(mstep c e s = Some s1 \<longrightarrow> doneChan s1)
    \<and> (\<not> m_reported s \<longrightarrow>
         (w < length (pool s k) \<and> pool s k ! w = WRecv \<longrightarrow>
            mstep c (WorkerQuit k w) s = Some (set_worker k w WExit s))
       \<and> (w < length (pool s k) \<and> pool s k ! w = WCall i \<longrightarrow>
            mstep c (WorkerComplete k w st) s = Some (mcomplete c k w i st s)
            \<and> counters (mcomplete c k w i st s) k = counters s k + 1)
       \<and> (pr_pc (producers s k) = PSel \<longrightarrow>
            mstep c (ProducerQuit k) s = Some (set_producer k ((producers s k)\<lparr>pr_pc := PExit\<rparr>) s))
       \<and> (pr_pc (producers s k) = PPoll \<longrightarrow>
            mstep c (ProducerPoll k) s = Some (set_producer k ((producers s k)\<lparr>pr_pc := PExit\<rparr>) s))
       \<and> (\<not> reporter_exited s \<longrightarrow>
            mstep c ReporterQuit s = Some (s\<lparr>reporter_exited := True\<rparr>)))
    \<and> (pr_pc (producers s k) = PExit \<longrightarrow>
         mstep c (ProducerSend k) s = None
         \<and> (mstep c e s = Some s1 \<longrightarrow> pr_pc (producers s1 k) = PExit))
    \<and> (\<exists>es' s'. (\<forall>e \<in> set es'. quiet_event e) \<and> run_events (mstep c) es' s = Some s'
          \<and> m_reported s' \<and> m_exited s' = None)"
proof -
  have 1: "mstep c e s = Some s1 \<longrightarrow> doneChan s1" using mstep_done assms(1) by blast
  have 2: "\<not> m_reported s \<longrightarrow>
         (w < length (pool s k) \<and> pool s k ! w = WRecv \<longrightarrow>
            mstep c (WorkerQuit k w) s = Some (set_worker k w WExit s))
       \<and> (w < length (pool s k) \<and> pool s k ! w = WCall i \<longrightarrow>
            mstep c (WorkerComplete k w st) s = Some (mcomplete c k w i st s)
            \<and> counters (mcomplete c k w i st s) k = counters s k + 1)
       \<and> (pr_pc (producers s k) = PSel \<longrightarrow>
            mstep c (ProducerQuit k) s = Some (set_producer k ((producers s k)\<lparr>pr_pc := PExit\<rparr>) s))
       \<and> (pr_pc (producers s k) = PPoll \<longrightarrow>
            mstep c (ProducerPoll k) s = Some (set_producer k ((producers s k)\<lparr>pr_pc := PExit\<rparr>) s))
       \<and> (\<not> reporter_exited s \<longrightarrow>
            mstep c ReporterQuit s = Some (s\<lparr>reporter_exited := True\<rparr>))"
    using assms by (simp add: mstep_def producer_poll_def)
  have 3: "pr_pc (producers s k) = PExit \<longrightarrow>
         mstep c (ProducerSend k) s = None
         \<and> (mstep c e s = Some s1 \<longrightarrow> pr_pc (producers s1 k) = PExit)"
    using mstep_pexit[of c e s s1 k] by (simp add: mstep_def)
  note 4 = can_shut_down[OF assms, of c]
  show ?thesis using 1 2 3 4 by blast
qed

lemma timer_state:
  "\<exists>s. mrun (mixed_locals fl_mix) 0 [TimerFire] = Some s \<and> doneChan s \<and> m_exited s = None
     \<and> \<not> m_reported s \<and> pr_pc (producers s PUT) = PSel"
  by (simp add: mrun_def mstep_def minit_def loop_head_def)

theorem shutdown_after_done_witness:
  "\<exists>s. mrun (mixed_locals fl_mix) 0 [TimerFire] = Some s \<and> doneChan s \<and> m_exited s = None
     \<and> mstep (mixed_locals fl_mix) (ProducerQuit PUT) s
         = Some (set_producer PUT ((producers s PUT)\<lparr>pr_pc := PExit\<rparr>) s)
     \<and> (\<exists>es' s'. run_events (mstep (mixed_locals fl_mix)) es' s = Some s' \<and> m_reported s')"
proof -
  from timer_state obtain s where s: "mrun (mixed_locals fl_mix) 0 [TimerFire] = Some s"
    "doneChan s" "m_exited s = None" "\<not> m_reported s" "pr_pc (producers s PUT) = PSel"
    by (elim exE conjE)
  note th = shutdown_after_done[OF s(2,3), of "mixed_locals fl_mix" _ _ 0 PUT]
  have 1: "mstep (mixed_locals fl_mix) (ProducerQuit PUT) s
         = Some (set_producer PUT ((producers s PUT)\<lparr>pr_pc := PExit\<rparr>) s)"
    using th s(4,5) by blast
  have 2: "\<exists>es' s'. run_events (mstep (mixed_locals fl_mix)) es' s = Some s' \<and> m_reported s'"
    using th by blast
  show ?thesis using s 1 2 by blast
qed

subsection \<open>The throughput files\<close>

lemma rows_ok_append:
  "rows_ok h bl n rows \<Longrightarrow> length r = n \<Longrightarrow> rows_ok h bl n (rows @ [r])"
  by (auto simp: rows_ok_def)

lemma fstep_rows:
  assumes "fstep b e s = Some s'" "rows_ok csvot_header [itoa t0, ''0''] 2 (csvotw s)"
  shows "rows_ok csvot_header [itoa t0, ''0''] 2 (csvotw s')"
  using assms
  by (cases rule: fstep_cases) (auto simp: tick_def finish_def Let_def intro: rows_ok_append)

lemma fixed_csvot_rows:
  assumes "b_csvot b" "frun b t0 es = Some s"
  shows "rows_ok csvot_header [itoa t0, ''0''] 2 (csvotw s) \<and> length csvot_header = 2"
proof -
  have "rows_ok csvot_header [itoa t0, ''0''] 2 (csvotw s)"
    using assms(2) unfolding frun_def
    by (rule run_events_invariant)
       (use assms(1) fstep_rows in \<open>auto simp: finit_def enter_iteration_def rows_ok_def\<close>)
  then show ?thesis by (simp add: csvot_header_def)
qed

lemma length_delta_row: "length (delta_row now s) = 6"
  by (simp add: delta_row_def kinds_def)

lemma mstep_rows:
  assumes "mstep c e s = Some s'" "rows_ok mixed_header (mixed_baseline t0) 6 (m_csvotw s)"
  shows "rows_ok mixed_header (mixed_baseline t0) 6 (m_csvotw s')"
  using assms
  by (cases rule: mstep_cases)
     (auto simp: report_def mfinish_def length_delta_row intro: rows_ok_append)

lemma mixed_csvot_rows:
  assumes "m_csvot c" "mrun c t0 es = Some s"
  shows "rows_ok mixed_header (mixed_baseline t0) 6 (m_csvotw s)"
  using assms(2) unfolding mrun_def
  by (rule run_events_invariant)
     (use assms(1) mstep_rows in \<open>auto simp: minit_def rows_ok_def\<close>)

text \<open>
  C7. The throughput file of bench-mixed has a header of six fields, and every row written
  at a tick or at the end has six; but the baseline row that \<^verbatim>\<open>benchMixed\<close> writes at
  start time has seven fields, the clock and six zeros, one more than its header. (The
  files of the single-kind drivers have two fields in the header and in every row.)
\<close>

theorem mixed_baseline_width:
  "m_csvotw (minit (mixed_locals fl_mix) 5) = [mixed_header, mixed_baseline 5]
   \<and> length mixed_header = 6 \<and> length (mixed_baseline 5) = 7
   \<and> mixed_baseline 5 = [''5'', ''0'', ''0'', ''0'', ''0'', ''0'', ''0'']"
  by (simp add: minit_def mixed_locals_def fl_mix_def mixed_header_def mixed_baseline_def
      itoa_def digits.simps)

subsection \<open>Responses that are not 2xx\<close>

lemma fstep_exited_stuck: "exited s \<noteq> None \<Longrightarrow> fstep b e s = None"
  by (simp add: fstep_def)

lemma mstep_exited_stuck: "m_exited s \<noteq> None \<Longrightarrow> mstep c e s = None"
  by (simp add: mstep_def)

lemma fixed_non_2xx:
  assumes "b = bench_locals kd fl" "frun b t0 es = Some s"
    "fstep b (Complete w st r) s = Some s'" "st div 100 \<noteq> 2"
  shows "\<exists>i body. workers s ! w = WCall i
      \<and> stderr s' = stderr s @ [diag_of b i st]
      \<and> requests s' = requests s @ [request_of b i st body]
      \<and> benchChan s' = benchChan s \<and> sent s' = sent s
      \<and> issued s' \<subseteq># mset (sent s')
      \<and> (if b_continueOnError b
          then exited s' = None \<and> workers s' = (workers s)[w := WRecv]
          else exited s' = Some 1 \<and> (\<forall>e. fstep b e s' = None))"
proof -
  have wf: "wf_bench b" using assms(1) wf_bench_locals by simp
  have "finv b s" using frun_finv[OF wf assms(2)] .
  then have "finv b s'" using fstep_finv[OF assms(3) wf] by simp
  then have sub: "issued s' \<subseteq># mset (sent s')" using issued_sub_sent by (simp add: finv_def)
  from assms(3) show ?thesis
  proof (cases rule: fstep_cases)
    case (Ok w' i st' r' body)
    with assms(4) show ?thesis by simp
  next
    case (Skip w' i st' r' body)
    with sub show ?thesis by (intro exI[of _ i] exI[of _ body]) simp
  next
    case (Fatal w' i st' r' body)
    with sub show ?thesis
      by (intro exI[of _ i] exI[of _ body]) (simp add: fstep_exited_stuck)
  qed simp_all
qed

lemma mixed_non_2xx:
  assumes "mstep c (WorkerComplete k w st) m = Some m'" "st div 100 \<noteq> 2"
  shows "\<exists>i. pool m k ! w = WCall i
      \<and> m_stderr m' = m_stderr m @ [mdiag c k i st]
      \<and> m_requests m' = m_requests m @ [(k, i)]
      \<and> chans m' = chans m
      \<and> (if m_continueOnError c
          then m_exited m' = None \<and> pool m' = (pool m)(k := (pool m k)[w := WRecv])
          else m_exited m' = Some 1 \<and> (\<forall>e. mstep c e m' = None))"
proof -
  from assms(1) have en: "m_exited m = None" by (rule mstep_enabled[THEN conjunct1])
  from assms(1) show ?thesis
  proof (cases rule: mstep_cases)
    case (WorkerComplete k' w' i st')
    with assms(2) en show ?thesis
      by (intro exI[of _ i]) (simp add: mcomplete_outcome mstep_exited_stuck)
  qed simp_all
qed

lemma mpool_update:
  "w < length ws \<Longrightarrow> mpool (ws[w := x]) + minflight (ws ! w) = mpool ws + minflight x"
  unfolding mpool_def
proof (induction ws arbitrary: w)
  case Nil
  then show ?case by simp
next
  case (Cons a ws)
  then show ?case by (cases w) (auto simp: ac_simps)
qed

lemma mpool_replicate [simp]: "mpool (replicate n WRecv) = {#}"
  by (induction n) (simp_all add: mpool_def minflight_def)

lemma mreq_same [simp]:
  "mreq (set_worker k w x s) = mreq s" "mreq (set_producer k p s) = mreq s"
  "mreq (producer_send k s) = mreq s" "mreq (report c now s) = mreq s"
  "mreq (mfinish c now s) = mreq s" "mreq (s\<lparr>doneChan := d\<rparr>) = mreq s"
  "mreq (s\<lparr>reporter_exited := d\<rparr>) = mreq s" "mreq (s\<lparr>chans := ch\<rparr>) = mreq s"
  by (rule ext, simp add: mreq_def)+

lemma mreq_complete:
  "mreq (mcomplete c k w i st s) j = (if j = k then add_mset i (mreq s k) else mreq s j)"
  by (simp add: mreq_def)

lemma mstep_mconserved:
  assumes "mstep c e s = Some s'" "mconserved s"
  shows "mconserved s'"
proof -
  from assms(1) have en: "m_exited s = None" by (rule mstep_enabled[THEN conjunct1])
  with assms(2) have eq: "mset (dispatched s j) = mset (chans s j) + mpool (pool s j) + mreq s j" for j
    by (simp add: mconserved_def)
  from assms(1) show ?thesis
  proof (cases rule: mstep_cases)
    case (WorkerRecv k w v rest)
    with mpool_update[of w "pool s k" "WCall v"]
    have "mpool ((pool s k)[w := WCall v]) = add_mset v (mpool (pool s k))"
      by (simp add: minflight_def)
    with WorkerRecv en eq[of k] eq show ?thesis by (simp add: mconserved_def)
  next
    case (WorkerQuit k w)
    with mpool_update[of w "pool s k" WExit]
    have "mpool ((pool s k)[w := WExit]) = mpool (pool s k)" by (simp add: minflight_def)
    with WorkerQuit en eq show ?thesis by (simp add: mconserved_def)
  next
    case (WorkerComplete k w i st)
    with mpool_update[of w "pool s k" WRecv]
    have p: "add_mset i (mpool ((pool s k)[w := WRecv])) = mpool (pool s k)"
      by (simp add: minflight_def)
    show ?thesis
    proof (cases "st div 100 \<noteq> 2 \<and> \<not> m_continueOnError c")
      case True
      have "mset (dispatched s k) =
          mset (chans s k) + add_mset i (mpool ((pool s k)[w := WRecv])) + mreq s k"
        unfolding p by (rule eq)
      then have "add_mset i (mreq s k) \<subseteq># mset (dispatched s k)" by simp
      moreover have "mreq s j \<subseteq># mset (dispatched s j)" for j unfolding eq[of j] by simp
      ultimately show ?thesis using WorkerComplete True
        by (simp add: mconserved_def mcomplete_outcome mreq_complete)
    next
      case False
      then have ex: "m_exited s' = None" and pl: "pool s' = (pool s)(k := (pool s k)[w := WRecv])"
        using WorkerComplete en by (auto simp: mcomplete_outcome)
      show ?thesis unfolding mconserved_def
      proof (intro allI)
        fix j
        show "if m_exited s' = None
          then mset (dispatched s' j) = mset (chans s' j) + mpool (pool s' j) + mreq s' j
          else mreq s' j \<subseteq># mset (dispatched s' j)"
        proof (cases "j = k")
          case True
          have "mset (dispatched s k) =
              mset (chans s k) + add_mset i (mpool ((pool s k)[w := WRecv])) + mreq s k"
            unfolding p by (rule eq)
          with True ex pl WorkerComplete(4) show ?thesis by (simp add: mreq_complete)
        next
          case False
          with ex pl WorkerComplete(4) eq[of j] show ?thesis by (simp add: mreq_complete)
        qed
      qed
    qed
  next
    case (ProducerSend k)
    with en eq show ?thesis by (simp add: mconserved_def)
  qed (use en eq in \<open>simp_all add: mconserved_def\<close>)
qed

lemma minit_mconserved: "mconserved (minit c t0)"
  by (simp add: mconserved_def minit_def mreq_def)

lemma mconserved_sub:
  assumes "mconserved s"
  shows "mreq s k \<subseteq># mset (dispatched s k)"
proof (cases "m_exited s = None")
  case True
  with assms have "mset (dispatched s k) = mset (chans s k) + mpool (pool s k) + mreq s k"
    by (simp add: mconserved_def)
  then show ?thesis by simp
next
  case False
  with assms show ?thesis by (simp add: mconserved_def)
qed

lemma run_mconserved:
  assumes "run_events (mstep c) es s0 = Some s" "mconserved s0"
  shows "mconserved s"
  using assms(1,2) by (rule run_events_invariant) (rule mstep_mconserved)

lemma mstep_requests_grow:
  assumes "mstep c e s = Some s'"
  shows "\<exists>more. m_requests s' = m_requests s @ more"
  using assms by (cases rule: mstep_cases) simp_all

lemma run_m_requests_grow:
  assumes "run_events (mstep c) es s0 = Some s"
  shows "\<exists>more. m_requests s = m_requests s0 @ more"
  using assms
proof (rule run_events_invariant)
  show "\<exists>more. m_requests s0 = m_requests s0 @ more" by simp
next
  fix e s1 s2
  assume "\<exists>more. m_requests s1 = m_requests s0 @ more" "mstep c e s1 = Some s2"
  then show "\<exists>more. m_requests s2 = m_requests s0 @ more"
    using mstep_requests_grow[of c e s1 s2] by auto
qed

lemma fstep_requests_grow:
  assumes "fstep b e s = Some s'"
  shows "\<exists>more. requests s' = requests s @ more"
  using assms by (cases rule: fstep_cases) simp_all

lemma run_requests_grow:
  assumes "run_events (fstep b) es s0 = Some s"
  shows "\<exists>more. requests s = requests s0 @ more"
  using assms
proof (rule run_events_invariant)
  show "\<exists>more. requests s0 = requests s0 @ more" by simp
next
  fix e s1 s2
  assume "\<exists>more. requests s1 = requests s0 @ more" "fstep b e s1 = Some s2"
  then show "\<exists>more. requests s2 = requests s0 @ more"
    using fstep_requests_grow[of b e s1 s2] by auto
qed

lemma run_finv:
  assumes "run_events (fstep b) es s0 = Some s" "wf_bench b" "finv b s0"
  shows "finv b s"
  using assms(1,3) by (rule run_events_invariant) (use assms(2) fstep_finv in auto)

lemma fixed_non_2xx_later:
  assumes "b = bench_locals kd fl" "frun b t0 es = Some s"
    "fstep b (Complete w st r) s = Some s'" "run_events (fstep b) es2 s' = Some s2"
  shows "(\<exists>more. requests s2 = requests s' @ more)
      \<and> issued s2 \<subseteq># mset (sent s2)
      \<and> (exited s2 = None \<longrightarrow>
           mset (sent s2) = mset (benchChan s2) + pool_inflight (workers s2) + issued s2)"
proof -
  have wf: "wf_bench b" using assms(1) wf_bench_locals by simp
  have "finv b s" using frun_finv[OF wf assms(2)] .
  then have "finv b s'" using fstep_finv[OF assms(3) wf] by simp
  then have "finv b s2" using run_finv[OF assms(4) wf] by simp
  then have c: "conserved s2" by (simp add: finv_def)
  from c have 2: "issued s2 \<subseteq># mset (sent s2)" by (rule issued_sub_sent)
  from c have 3: "exited s2 = None \<longrightarrow>
           mset (sent s2) = mset (benchChan s2) + pool_inflight (workers s2) + issued s2"
    by (simp add: conserved_def)
  from run_requests_grow[OF assms(4)] 2 3 show ?thesis by blast
qed

lemma mixed_non_2xx_later:
  assumes "mrun c t1 es1 = Some m" "mstep c (WorkerComplete k w st) m = Some m'"
    "run_events (mstep c) es3 m' = Some m2"
  shows "dispatched m' = dispatched m
      \<and> (\<exists>more. m_requests m2 = m_requests m' @ more)
      \<and> (\<forall>j. mreq m2 j \<subseteq># mset (dispatched m2 j))
      \<and> (m_exited m2 = None \<longrightarrow>
           (\<forall>j. mset (dispatched m2 j) = mset (chans m2 j) + mpool (pool m2 j) + mreq m2 j))"
proof -
  have "mconserved m" using run_mconserved[OF assms(1)[unfolded mrun_def] minit_mconserved] .
  then have "mconserved m'" using mstep_mconserved[OF assms(2)] by simp
  then have c: "mconserved m2" using run_mconserved[OF assms(3)] by simp
  have 1: "dispatched m' = dispatched m"
    using assms(2) by (auto simp: mstep_def split: if_splits wstate.splits)
  have 3: "\<forall>j. mreq m2 j \<subseteq># mset (dispatched m2 j)" using mconserved_sub[OF c] by blast
  have 4: "m_exited m2 = None \<longrightarrow>
           (\<forall>j. mset (dispatched m2 j) = mset (chans m2 j) + mpool (pool m2 j) + mreq m2 j)"
    using c by (simp add: mconserved_def)
  from run_m_requests_grow[OF assms(3)] 1 3 4 show ?thesis by blast
qed

text \<open>
  C5. When the StorageClient answers a worker's operation with a non-2xx status, in a
  fixed-count driver or in bench-mixed, exactly one diagnostic line is added to standard
  error and exactly one request has been made for the task, which is put back on no
  channel. If continue-on-error is false the process has exited with status 1 and takes no
  further step; if it is true the process goes on and the worker is back at the receive
  of its next task. The failed operation is never reissued: however the run goes on, the
  failed request stays in the list of requests made, and every value sent on a task
  channel is in the channel, held by a worker, or has been made into exactly one request,
  so the requests made for an index never outnumber the times it was dispatched.
\<close>

theorem non_2xx_outcomes:
  "(b = bench_locals kd fl \<and> frun b t0 es = Some s
      \<and> fstep b (Complete w st r) s = Some s' \<and> st div 100 \<noteq> 2
      \<and> run_events (fstep b) es2 s' = Some s2 \<longrightarrow>
      (\<exists>i body. workers s ! w = WCall i
         \<and> stderr s' = stderr s @ [diag_of b i st]
         \<and> requests s' = requests s @ [request_of b i st body]
         \<and> benchChan s' = benchChan s \<and> sent s' = sent s
         \<and> issued s' \<subseteq># mset (sent s')
         \<and> (if b_continueOnError b
             then exited s' = None \<and> workers s' = (workers s)[w := WRecv]
             else exited s' = Some 1 \<and> (\<forall>e. fstep b e s' = None)))
      \<and> (\<exists>more. requests s2 = requests s' @ more)
      \<and> issued s2 \<subseteq># mset (sent s2)
      \<and> (exited s2 = None \<longrightarrow>
           mset (sent s2) = mset (benchChan s2) + pool_inflight (workers s2) + issued s2))
   \<and> (mrun c t1 es1 = Some m \<and> mstep c (WorkerComplete k w1 st1) m = Some m'
      \<and> st1 div 100 \<noteq> 2 \<and> run_events (mstep c) es3 m' = Some m2 \<longrightarrow>
      (\<exists>i. pool m k ! w1 = WCall i
         \<and> m_stderr m' = m_stderr m @ [mdiag c k i st1]
         \<and> m_requests m' = m_requests m @ [(k, i)]
         \<and> chans m' = chans m
         \<and> (if m_continueOnError c
             then m_exited m' = None \<and> pool m' = (pool m)(k := (pool m k)[w1 := WRecv])
             else m_exited m' = Some 1 \<and> (\<forall>e. mstep c e m' = None)))
      \<and> dispatched m' = dispatched m
      \<and> (\<exists>more. m_requests m2 = m_requests m' @ more)
      \<and> (\<forall>j. mreq m2 j \<subseteq># mset (dispatched m2 j))
      \<and> (m_exited m2 = None \<longrightarrow>
           (\<forall>j. mset (dispatched m2 j) = mset (chans m2 j) + mpool (pool m2 j) + mreq m2 j)))"
  using fixed_non_2xx[of b kd fl t0 es s w st r s'] mixed_non_2xx[of c k w1 st1 m m']
    fixed_non_2xx_later[of b kd fl t0 es s w st r s' es2 s2]
    mixed_non_2xx_later[of c t1 es1 m k w1 st1 m' es3 m2]
  by blast

lemma fatal_example:
  "\<exists>s s'. frun (bench_locals DELETE fl_del) 0 [Send, Recv 0] = Some s
      \<and> fstep (bench_locals DELETE fl_del) (Complete 0 503 0) s = Some s'
      \<and> stderr s' = [Diag DELETE ''c0'' ''o0'' 503] \<and> exited s' = Some 1
      \<and> length (requests s') = 1"
  by (simp add: fl_del_def frun_def bench_locals_def has_iterations_def finit_def
      enter_iteration_def fstep_def send_def advance_def recv_def after_recv_def complete_def
      body_size_def task_names_def Let_def itoa_def digits.simps request_of_def
      diag_of_def go_rem_def go_quot_def)

lemma fskip_example:
  "\<exists>s s' s2. frun (bench_locals DELETE fl_skip) 0 [Send, Recv 0] = Some s
      \<and> fstep (bench_locals DELETE fl_skip) (Complete 0 503 0) s = Some s'
      \<and> run_events (fstep (bench_locals DELETE fl_skip)) es_retry s' = Some s2
      \<and> stderr s' = [Diag DELETE ''c'' ''o0'' 503] \<and> exited s' = None
      \<and> workers s' = [WRecv]
      \<and> map rq_index (requests s') = [0] \<and> map rq_index (requests s2) = [0, 1]
      \<and> sent s2 = [1, 2]"
  by (simp add: fl_skip_def es_retry_def frun_def bench_locals_def has_iterations_def finit_def
      enter_iteration_def fstep_def send_def advance_def recv_def after_recv_def complete_def
      body_size_def task_names_def Let_def itoa_def digits.simps request_of_def
      diag_of_def)

lemma mskip_example:
  "\<exists>m m' m2. mrun (mixed_locals fl_skip) 0 [ProducerSend PUT, WorkerRecv PUT 0] = Some m
      \<and> mstep (mixed_locals fl_skip) (WorkerComplete PUT 0 503) m = Some m'
      \<and> run_events (mstep (mixed_locals fl_skip)) put_cycle m' = Some m2
      \<and> m_stderr m' = [Diag PUT ''c'' ''o0'' 503] \<and> m_exited m' = None
      \<and> pool m' PUT = [WRecv] \<and> m_requests m' = [(PUT, 0)]
      \<and> m_requests m2 = [(PUT, 0), (PUT, 1)] \<and> dispatched m2 PUT = [0, 1]"
  by (simp add: fl_skip_def put_cycle_def mrun_def mstep_def minit_def mixed_locals_def
      loop_head_def mcomplete_outcome mdiag_def task_names_def itoa_def digits.simps)

theorem non_2xx_outcomes_witness:
  "(\<exists>s s' s2. frun (bench_locals DELETE fl_skip) 0 [Send, Recv 0] = Some s
      \<and> fstep (bench_locals DELETE fl_skip) (Complete 0 503 0) s = Some s'
      \<and> run_events (fstep (bench_locals DELETE fl_skip)) es_retry s' = Some s2
      \<and> stderr s' = [Diag DELETE ''c'' ''o0'' 503] \<and> exited s' = None
      \<and> workers s' = [WRecv]
      \<and> map rq_index (requests s') = [0] \<and> map rq_index (requests s2) = [0, 1]
      \<and> sent s2 = [1, 2]
      \<and> issued s2 \<subseteq># mset (sent s2))
   \<and> (\<exists>m m' m2. mrun (mixed_locals fl_skip) 0 [ProducerSend PUT, WorkerRecv PUT 0] = Some m
      \<and> mstep (mixed_locals fl_skip) (WorkerComplete PUT 0 503) m = Some m'
      \<and> run_events (mstep (mixed_locals fl_skip)) put_cycle m' = Some m2
      \<and> m_stderr m' = [Diag PUT ''c'' ''o0'' 503] \<and> m_exited m' = None
      \<and> pool m' PUT = [WRecv] \<and> m_requests m' = [(PUT, 0)]
      \<and> m_requests m2 = [(PUT, 0), (PUT, 1)] \<and> dispatched m2 PUT = [0, 1]
      \<and> chans m' = chans m
      \<and> mreq m2 PUT \<subseteq># mset (dispatched m2 PUT))
   \<and> (\<exists>s s'. frun (bench_locals DELETE fl_del) 0 [Send, Recv 0] = Some s
      \<and> fstep (bench_locals DELETE fl_del) (Complete 0 503 0) s = Some s'
      \<and> stderr s' = [Diag DELETE ''c0'' ''o0'' 503] \<and> exited s' = Some 1
      \<and> length (requests s') = 1
      \<and> fstep (bench_locals DELETE fl_del) Send s' = None)"
proof -
  from fskip_example obtain s s' s2 where f:
    "frun (bench_locals DELETE fl_skip) 0 [Send, Recv 0] = Some s"
    "fstep (bench_locals DELETE fl_skip) (Complete 0 503 0) s = Some s'"
    "run_events (fstep (bench_locals DELETE fl_skip)) es_retry s' = Some s2"
    "stderr s' = [Diag DELETE ''c'' ''o0'' 503]" "exited s' = None" "workers s' = [WRecv]"
    "map rq_index (requests s') = [0]" "map rq_index (requests s2) = [0, 1]"
    "sent s2 = [1, 2]"
    by (elim exE conjE)
  from mskip_example obtain m m' m2 where m:
    "mrun (mixed_locals fl_skip) 0 [ProducerSend PUT, WorkerRecv PUT 0] = Some m"
    "mstep (mixed_locals fl_skip) (WorkerComplete PUT 0 503) m = Some m'"
    "run_events (mstep (mixed_locals fl_skip)) put_cycle m' = Some m2"
    "m_stderr m' = [Diag PUT ''c'' ''o0'' 503]" "m_exited m' = None"
    "pool m' PUT = [WRecv]" "m_requests m' = [(PUT, 0)]"
    "m_requests m2 = [(PUT, 0), (PUT, 1)]" "dispatched m2 PUT = [0, 1]"
    by (elim exE conjE)
  from fatal_example obtain u u' where g:
    "frun (bench_locals DELETE fl_del) 0 [Send, Recv 0] = Some u"
    "fstep (bench_locals DELETE fl_del) (Complete 0 503 0) u = Some u'"
    "stderr u' = [Diag DELETE ''c0'' ''o0'' 503]" "exited u' = Some 1"
    "length (requests u') = 1"
    by (elim exE conjE)
  have st: "(503::nat) div 100 \<noteq> 2" by simp
  note th = non_2xx_outcomes[of "bench_locals DELETE fl_skip" DELETE fl_skip 0 "[Send, Recv 0]"
      s 0 503 0 s' es_retry s2 "mixed_locals fl_skip" 0 "[ProducerSend PUT, WorkerRecv PUT 0]"
      m PUT 0 503 m' put_cycle m2]
  have 1: "issued s2 \<subseteq># mset (sent s2)"
    using th[THEN conjunct1] f(1,2,3) st by blast
  have 2: "chans m' = chans m" "mreq m2 PUT \<subseteq># mset (dispatched m2 PUT)"
    using th[THEN conjunct2] m(1,2,3) st by blast+
  have co: "\<not> b_continueOnError (bench_locals DELETE fl_del)"
    by (simp add: bench_locals_def fl_del_def Let_def)
  have r0: "run_events (fstep (bench_locals DELETE fl_del)) [] u' = Some u'" by simp
  note th2 = non_2xx_outcomes[of "bench_locals DELETE fl_del" DELETE fl_del 0 "[Send, Recv 0]"
      u 0 503 0 u' "[]" u', THEN conjunct1]
  have 3: "fstep (bench_locals DELETE fl_del) Send u' = None"
    using th2 g(1,2) r0 st co by auto
  have A: "\<exists>s s' s2. frun (bench_locals DELETE fl_skip) 0 [Send, Recv 0] = Some s
      \<and> fstep (bench_locals DELETE fl_skip) (Complete 0 503 0) s = Some s'
      \<and> run_events (fstep (bench_locals DELETE fl_skip)) es_retry s' = Some s2
      \<and> stderr s' = [Diag DELETE ''c'' ''o0'' 503] \<and> exited s' = None
      \<and> workers s' = [WRecv]
      \<and> map rq_index (requests s') = [0] \<and> map rq_index (requests s2) = [0, 1]
      \<and> sent s2 = [1, 2]
      \<and> issued s2 \<subseteq># mset (sent s2)"
    by (rule exI[of _ s], rule exI[of _ s'], rule exI[of _ s2], intro conjI) (fact f 1)+
  have B: "\<exists>m m' m2. mrun (mixed_locals fl_skip) 0 [ProducerSend PUT, WorkerRecv PUT 0] = Some m
      \<and> mstep (mixed_locals fl_skip) (WorkerComplete PUT 0 503) m = Some m'
      \<and> run_events (mstep (mixed_locals fl_skip)) put_cycle m' = Some m2
      \<and> m_stderr m' = [Diag PUT ''c'' ''o0'' 503] \<and> m_exited m' = None
      \<and> pool m' PUT = [WRecv] \<and> m_requests m' = [(PUT, 0)]
      \<and> m_requests m2 = [(PUT, 0), (PUT, 1)] \<and> dispatched m2 PUT = [0, 1]
      \<and> chans m' = chans m
      \<and> mreq m2 PUT \<subseteq># mset (dispatched m2 PUT)"
    by (rule exI[of _ m], rule exI[of _ m'], rule exI[of _ m2], intro conjI) (fact m 2)+
  have C: "\<exists>s s'. frun (bench_locals DELETE fl_del) 0 [Send, Recv 0] = Some s
      \<and> fstep (bench_locals DELETE fl_del) (Complete 0 503 0) s = Some s'
      \<and> stderr s' = [Diag DELETE ''c0'' ''o0'' 503] \<and> exited s' = Some 1
      \<and> length (requests s') = 1
      \<and> fstep (bench_locals DELETE fl_del) Send s' = None"
    by (rule exI[of _ u], rule exI[of _ u'], intro conjI) (fact g 3)+
  show ?thesis using A B C by (intro conjI)
qed

subsection \<open>The ratio-interleaved driver with ratios 1,0,0,0,1\<close>

lemma op_order_delete_put: "op_order ''1,0,0,0,1'' = Some [0, 4]"
  by (simp add: op_order_def Atoi_def digit_val_def Let_def)

lemma tag_delet: "(push_bit 4 (i::int) OR 0) AND 15 = 0"
proof -
  have "take_bit 4 (push_bit 4 i) = (0::int)" by (simp add: take_bit_push_bit)
  then show ?thesis by (simp add: take_bit_eq_mask mask_numeral)
qed

lemma tag_put: "(push_bit 4 (i::int) OR 4) AND 15 = 4"
proof -
  have "take_bit 4 (push_bit 4 i OR 4) = take_bit 4 (push_bit 4 i) OR take_bit 4 (4::int)"
    by (simp add: take_bit_or del: take_bit_push_bit)
  also have "\<dots> = 4" by (simp add: take_bit_push_bit)
  finally show ?thesis by (simp add: take_bit_eq_mask mask_numeral)
qed

lemma tag_ok_pushed: "tag_ok (push_bit 4 i OR 0)" "tag_ok (push_bit 4 i OR 4)"
  using tag_delet[of i] tag_put[of i] unfolding tag_ok_def by blast+

lemma loop_body_ainv:
  assumes "ainv s" "a_pending s = None"
  shows "ainv (loop_body [0, 4] s)"
proof -
  let ?r = "go_rem (a_x s) (int (length [0, 4 :: int]))"
  show ?thesis
  proof (cases "?r < 0")
    case True
    with assms show ?thesis by (simp add: loop_body_def ainv_def)
  next
    case False
    then have "nat ?r = 0 \<or> nat ?r = 1 \<or> 2 \<le> nat ?r" by linarith
    moreover have "?r < 2"
    proof -
      have "\<bar>a_x s\<bar> mod 2 < 2" by simp
      then show ?thesis using False by (auto simp: go_rem_def go_quot_def sgn_if split: if_splits)
    qed
    ultimately have "nat ?r = 0 \<or> nat ?r = 1" using False by linarith
    then have "[0, 4 :: int] ! nat ?r = 0 \<or> [0, 4 :: int] ! nat ?r = 4" by auto
    with False assms tag_ok_pushed show ?thesis
      by (auto simp: loop_body_def ainv_def Let_def)
  qed
qed

lemma list_all_update:
  "list_all P xs \<Longrightarrow> P x \<Longrightarrow> list_all P (xs[w := x])"
  by (induction xs arbitrary: w) (auto split: nat.splits)

lemma astep_ainv:
  assumes "astep c [0, 4] e s = Some s'" "ainv s"
  shows "ainv s'"
proof (cases e)
  case ALoop
  with assms loop_body_ainv[of s] show ?thesis by (auto simp: astep_def split: if_splits)
next
  case ASend
  with assms show ?thesis
    by (auto simp: astep_def ainv_def split: if_splits option.splits)
next
  case ATimespan
  with assms show ?thesis by (auto simp: astep_def ainv_def split: if_splits)
next
  case (AUpdate now)
  with assms show ?thesis by (auto simp: astep_def split: if_splits)
next
  case AClose
  with assms show ?thesis by (auto simp: astep_def ainv_def split: if_splits)
next
  case (ARecv w)
  with assms have r: "arecv w s = Some s'" by (auto simp: astep_def split: if_splits)
  show ?thesis
  proof (cases "a_chan s")
    case Nil
    with r assms(2) show ?thesis
      by (auto simp: arecv_def ainv_def busy_ok_def intro!: list_all_update split: if_splits)
  next
    case (Cons v rest)
    with r assms(2) show ?thesis
      by (auto simp: arecv_def ainv_def busy_ok_def intro!: list_all_update)
  qed
next
  case (AComplete w st)
  with assms obtain v where v: "w < length (a_workers s)" "a_workers s ! w = WCall v"
    "s' = acomplete c w v st s"
    by (auto simp: astep_def split: if_splits wstate.splits)
  from v(1,2) assms(2) have "busy_ok (WCall v)"
    by (metis ainv_def list_all_length)
  then have "v AND 15 = 0 \<or> v AND 15 = 4" by (simp add: busy_ok_def tag_ok_def)
  then have k: "op_kind (v AND 15) = Some DELETE \<or> op_kind (v AND 15) = Some PUT"
    by (auto simp: op_kind_def)
  have w: "list_all busy_ok ((a_workers s)[w := WRecv])"
    using assms(2) by (auto simp: ainv_def busy_ok_def intro!: list_all_update)
  from k w v(3) assms(2) show ?thesis
    by (auto simp: acomplete_def ainv_def Let_def)
next
  case (AFinish stop)
  with assms show ?thesis by (auto simp: astep_def ainv_def split: if_splits)
qed

lemma ainit_ainv: "ainv (ainit c)"
  by (simp add: ainv_def ainit_def busy_ok_def list_all_iff)

text \<open>
  C9. With ratios \<^verbatim>\<open>"1,0,0,0,1"\<close> the operation-order table of the ratio-interleaved mixed
  driver is DELETE, PUT; whatever the duration, the concurrency and the container count, in
  every state of every run the GET, HEAD and POST counters are zero and no GET, HEAD or
  POST request has been made or is waiting in the channel.
\<close>

theorem delete_put_only:
  assumes "c = mixed_locals fl" and "arun c ''1,0,0,0,1'' es = Some (Some s)"
  shows "op_order ''1,0,0,0,1'' = Some [0, 4]
    \<and> a_counters s GET = 0 \<and> a_counters s HEAD = 0 \<and> a_counters s POST = 0
    \<and> list_all (\<lambda>(k, i). k = DELETE \<or> k = PUT) (a_requests s)
    \<and> list_all tag_ok (a_chan s)"
proof -
  from assms(2) have "run_events (astep c [0, 4]) es (ainit c) = Some s"
    by (simp add: arun_def op_order_delete_put)
  then have "ainv s"
    by (rule run_events_invariant) (use ainit_ainv astep_ainv in auto)
  then show ?thesis using op_order_delete_put by (simp add: ainv_def)
qed

lemma ratio_example:
  "\<exists>s. arun (mixed_locals fl_mix) ''1,0,0,0,1'' es_ratio = Some (Some s)
     \<and> a_phase s = Reported \<and> a_requests s = [(PUT, 1), (PUT, 2)] \<and> a_counters s PUT = 2"
  by (simp add: arun_def op_order_delete_put es_ratio_def astep_def ainit_def loop_body_def
      arecv_def acomplete_def op_kind_def mixed_locals_def fl_mix_def go_rem_def go_quot_def
      Let_def)

theorem delete_put_only_witness:
  "\<exists>s. arun (mixed_locals fl_mix) ''1,0,0,0,1'' es_ratio = Some (Some s)
     \<and> a_phase s = Reported \<and> a_requests s = [(PUT, 1), (PUT, 2)] \<and> a_counters s PUT = 2
     \<and> a_counters s GET = 0 \<and> a_counters s HEAD = 0 \<and> a_counters s POST = 0"
proof -
  from ratio_example obtain s where s:
    "arun (mixed_locals fl_mix) ''1,0,0,0,1'' es_ratio = Some (Some s)"
    "a_phase s = Reported" "a_requests s = [(PUT, 1), (PUT, 2)]" "a_counters s PUT = 2"
    by (elim exE conjE)
  from delete_put_only[OF refl s(1)]
  have z: "a_counters s GET = 0" "a_counters s HEAD = 0" "a_counters s POST = 0" by simp_all
  show ?thesis by (intro exI[of _ s] conjI) (fact s z)+
qed

end
